theory Spec2Isabelle
  imports Main "HOL-Library.Multiset" "HOL-Library.Sublist"
begin

section \<open>The word accumulator (WordAccumulator.h)\<close>

text \<open>
  \<^verbatim>\<open>using WordCountType = std::pair<std::string, int>\<close>. The occurrence count is a C++
  \<^verbatim>\<open>int\<close>; it only ever starts at 1 and is incremented, and it is modelled as an unbounded
  \<open>int\<close> (an increment past \<open>2^31 - 1\<close> is undefined in the source and is outside every
  property below).
\<close>

type_synonym WordCountType = "string \<times> int"

definition BIN_COUNT :: nat where
  "BIN_COUNT = 32767"

text \<open>
  The class members: \<^verbatim>\<open>mBins\<close> is a vector of bins, each bin a vector of pairs;
  \<^verbatim>\<open>mHasher\<close> is \<^verbatim>\<open>std::hash<std::string>\<close>, a function of the standard library that the
  repository does not define: it is a field of the model and every general theorem holds
  for any hash function. A \<^verbatim>\<open>size_t\<close> value is read as a natural number. The mutexes
  serialise the operations on a bin and have no sequential content.
\<close>

record WordAccumulator =
  mBins :: "WordCountType list list"
  mHasher :: "string \<Rightarrow> nat"

definition WordAccumulator_new :: "(string \<Rightarrow> nat) \<Rightarrow> WordAccumulator" where
  "WordAccumulator_new h = \<lparr>mBins = replicate BIN_COUNT [], mHasher = h\<rparr>"

text \<open>
  The loop of \<^verbatim>\<open>AddWord\<close> over one bin: \<open>Some\<close> is the early \<^verbatim>\<open>return\<close> after the
  increment of the first pair whose word is equal, \<open>None\<close> is the loop running to its end.
\<close>

fun increment_in_bin :: "WordCountType list \<Rightarrow> string \<Rightarrow> WordCountType list option" where
  "increment_in_bin [] word = None"
| "increment_in_bin (wordPair # rest) word =
     (if fst wordPair = word then Some ((fst wordPair, snd wordPair + 1) # rest)
      else (case increment_in_bin rest word of
              None \<Rightarrow> None
            | Some rest' \<Rightarrow> Some (wordPair # rest')))"

definition AddWord :: "WordAccumulator \<Rightarrow> string \<Rightarrow> WordAccumulator" where
  "AddWord s word =
     (let binIndex = mHasher s word mod length (mBins s);
          bin = mBins s ! binIndex
      in s\<lparr>mBins := (mBins s)[binIndex :=
               (case increment_in_bin bin word of
                  Some bin' \<Rightarrow> bin'
                | None \<Rightarrow> bin @ [(word, 1)])]\<rparr>)"

definition ClearResults :: "WordAccumulator \<Rightarrow> WordAccumulator" where
  "ClearResults s = s\<lparr>mBins := map (\<lambda>bin. []) (mBins s)\<rparr>"

definition GetUniqueWordCount :: "WordAccumulator \<Rightarrow> nat" where
  "GetUniqueWordCount s = fold (\<lambda>bin totalWords. totalWords + length bin) (mBins s) 0"

text \<open>
  \<^verbatim>\<open>std::sort\<close> with a comparator is library code: it returns a permutation of its input in
  which no element is followed by one that the comparator puts strictly before it, and it
  leaves the order of equivalent elements unspecified. The model is an insertion sort
  driven by the same comparator.
\<close>

fun place :: "('a \<Rightarrow> 'a \<Rightarrow> bool) \<Rightarrow> 'a \<Rightarrow> 'a list \<Rightarrow> 'a list" where
  "place before a [] = [a]"
| "place before a (b # bs) = (if before b a then b # place before a bs else a # b # bs)"

fun std_sort :: "('a \<Rightarrow> 'a \<Rightarrow> bool) \<Rightarrow> 'a list \<Rightarrow> 'a list" where
  "std_sort before [] = []"
| "std_sort before (a # rest) = place before a (std_sort before rest)"

text \<open>The lambda handed to \<^verbatim>\<open>sort\<close>: \<^verbatim>\<open>a.second > b.second\<close>.\<close>

definition by_occurrence :: "WordCountType \<Rightarrow> WordCountType \<Rightarrow> bool" where
  "by_occurrence a b = (snd a > snd b)"

text \<open>
  \<^verbatim>\<open>ListTopWords\<close> builds the result from the iterator range
  \<^verbatim>\<open>[allWords.begin(), allWords.begin() + count)\<close>. The range is only valid for
  \<open>0 \<le> count \<le> allWords.size()\<close>; outside it the source reads past the vector
  (undefined behaviour), which the model reports as a fault.
\<close>

datatype fault = SliceOutOfRange

definition collect_bins :: "WordCountType list list \<Rightarrow> WordCountType list" where
  "collect_bins bins =
     fold (\<lambda>bin allWords. if length bin \<le> 0 then allWords else allWords @ bin) bins []"

definition ListTopWords :: "WordAccumulator \<Rightarrow> int \<Rightarrow> fault + WordCountType list" where
  "ListTopWords s cnt =
     (let allWords = collect_bins (mBins s) in
      if length allWords \<le> 0 then Inr allWords
      else
        let ranked = std_sort by_occurrence allWords in
        if 0 \<le> cnt \<and> nat cnt \<le> length ranked
        then Inr (take (nat cnt) ranked)
        else Inl SliceOutOfRange)"

text \<open>
  \<^verbatim>\<open>size_t binIndex = mHasher(word) % mBins.size()\<close>: the shard a word is assigned to.
\<close>

definition shard_index :: "WordAccumulator \<Rightarrow> string \<Rightarrow> nat" where
  "shard_index s word = mHasher s word mod length (mBins s)"

text \<open>
  The states an accumulator can be in: the constructor's state followed by any sequence
  of \<^verbatim>\<open>AddWord\<close> and \<^verbatim>\<open>ClearResults\<close> calls.
\<close>

datatype acc_op = Add string | Clear

fun apply_op :: "WordAccumulator \<Rightarrow> acc_op \<Rightarrow> WordAccumulator" where
  "apply_op s (Add word) = AddWord s word"
| "apply_op s Clear = ClearResults s"

definition run_ops :: "(string \<Rightarrow> nat) \<Rightarrow> acc_op list \<Rightarrow> WordAccumulator" where
  "run_ops h ops = foldl apply_op (WordAccumulator_new h) ops"

text \<open>
  Every pair sits in the bin its word is assigned to, and no bin holds two pairs for one
  word.
\<close>

definition in_assigned_shard :: "WordAccumulator \<Rightarrow> bool" where
  "in_assigned_shard s \<longleftrightarrow>
     (\<forall>(i, bin) \<in> set (enumerate 0 (mBins s)).
        distinct (map fst bin) \<and> (\<forall>p \<in> set bin. shard_index s (fst p) = i))"

text \<open>Two states differ at most in the bin with index \<open>k\<close>.\<close>

definition same_except_bin :: "nat \<Rightarrow> WordAccumulator \<Rightarrow> WordAccumulator \<Rightarrow> bool" where
  "same_except_bin k s s' \<longleftrightarrow>
     length (mBins s') = length (mBins s) \<and>
     (\<forall>(j, bin) \<in> set (enumerate 0 (mBins s)). j \<noteq> k \<longrightarrow> mBins s' ! j = bin)"

text \<open>The list of counts is sorted from the highest occurrence to the lowest.\<close>

definition non_increasing :: "WordCountType list \<Rightarrow> bool" where
  "non_increasing ws = sorted_wrt (\<lambda>a b. snd b \<le> snd a) ws"

text \<open>A stand-in hash function for the evaluations at concrete inputs.\<close>

definition length_hasher :: "string \<Rightarrow> nat" where
  "length_hasher word = length word"

section \<open>The file indexer (class FileIndexer)\<close>

text \<open>
  What the indexer writes to \<^verbatim>\<open>cout\<close>, one constructor for each output statement:
  \<^verbatim>\<open>"Failed to open '" << filename << "': [" << err << "] " << message\<close>,
  \<^verbatim>\<open>"Failed reading file '" << filename << "': [" << err << "] " << strerror(err)\<close>,
  \<^verbatim>\<open>strerror(errno)\<close> after a failed \<^verbatim>\<open>opendir\<close>, and
  \<^verbatim>\<open>GetUniqueWordCount() << " words found"\<close>.
\<close>

datatype output_line =
    FailedToOpen string int
  | FailedReading string int
  | OpendirFailed int
  | WordsFound nat

text \<open>
  The state the member functions work on: the accumulator \<^verbatim>\<open>mWordsFound\<close>, the work items
  posted to \<^verbatim>\<open>mIOService\<close> (file names, in posting order) and the lines written to
  \<^verbatim>\<open>cout\<close>. The field \<open>added\<close> is a ghost: it records the argument of every
  \<^verbatim>\<open>AddWord\<close> call, in call order.
\<close>

record FileIndexer =
  mWordsFound :: WordAccumulator
  mIOService :: "string list"
  cout :: "output_line list"
  added :: "string list"

definition FileIndexer_new :: "(string \<Rightarrow> nat) \<Rightarrow> FileIndexer" where
  "FileIndexer_new h =
     \<lparr>mWordsFound = WordAccumulator_new h, mIOService = [], cout = [], added = []\<rparr>"

text \<open>\<^verbatim>\<open>mWordsFound.AddWord(word)\<close>, with the call recorded.\<close>

definition call_AddWord :: "string \<Rightarrow> FileIndexer \<Rightarrow> FileIndexer" where
  "call_AddWord word st =
     st\<lparr>mWordsFound := AddWord (mWordsFound st) word, added := added st @ [word]\<rparr>"

text \<open>
  What an \<^verbatim>\<open>ifstream\<close> on a file name does: the open fails (with the \<^verbatim>\<open>errno\<close> of the
  failure), or \<^verbatim>\<open>get()\<close> delivers the characters of a list one by one and then the stream
  stops being \<^verbatim>\<open>good()\<close>, at the end of the file (\<^verbatim>\<open>eof()\<close> holds) or by a failed read
  (\<^verbatim>\<open>eof()\<close> does not hold; with the \<^verbatim>\<open>errno\<close> of the failure).
\<close>

datatype stream_end = EndOfFile | ReadError int

datatype ifstream = CannotOpen int | Stream "char list" stream_end

text \<open>
  The two ways the scanner can leave the program: the \<^verbatim>\<open>assert\<close> aborts the process, or
  an access outside \<^verbatim>\<open>wordBuffer\<close> (undefined behaviour).
\<close>

datatype fatal = AssertionFailure | BufferOverrun

definition buffSize :: nat where
  "buffSize = 2048"

definition NUL :: char where
  "NUL = CHR 0x00"

text \<open>\<^verbatim>\<open>int ascii = (int)ch\<close>, where \<^verbatim>\<open>char\<close> is a signed byte (g++ on Linux/x86).\<close>

definition ascii_of :: "char \<Rightarrow> int" where
  "ascii_of ch = (let v = of_char ch in if v < 128 then v else v - 256)"

text \<open>
  The character test: the flag \<^verbatim>\<open>alphanum\<close> and the (possibly lowercased) character
  \<^verbatim>\<open>ch\<close> after it.
\<close>

definition classify :: "char \<Rightarrow> bool \<times> char" where
  "classify ch =
     (let ascii = ascii_of ch in
      if (ascii \<ge> 48 \<and> ascii \<le> 57) \<or> (ascii \<ge> 97 \<and> ascii \<le> 122) then (True, ch)
      else if ascii \<ge> 65 \<and> ascii \<le> 90 then (True, char_of (ascii + 32))
      else (False, ch))"

text \<open>\<^verbatim>\<open>word.assign(wordBuffer)\<close> reads the characters before the first NUL.\<close>

definition c_string :: "char list \<Rightarrow> string" where
  "c_string buffer = takeWhile (\<lambda>c. c \<noteq> NUL) buffer"

text \<open>
  The \<^verbatim>\<open>while (true)\<close> loop of \<^verbatim>\<open>ProcessFile\<close>, over the characters that \<^verbatim>\<open>get()\<close> still
  delivers; the empty list is the \<^verbatim>\<open>break\<close>. \<^verbatim>\<open>wordBuffer\<close> is the array (a list of
  \<^verbatim>\<open>buffSize\<close> characters) and \<^verbatim>\<open>bufIndex\<close> the index into it. A fatal exit carries the
  state at the moment of the exit.
\<close>

fun scan_loop ::
  "char list \<Rightarrow> char list \<Rightarrow> nat \<Rightarrow> FileIndexer \<Rightarrow> fatal \<times> FileIndexer + FileIndexer" where
  "scan_loop [] wordBuffer bufIndex st = Inr st"
| "scan_loop (c # input) wordBuffer bufIndex st =
     (let (alphanum, ch) = classify c in
      if alphanum then
        (if bufIndex < length wordBuffer then
           (if bufIndex + 1 < buffSize
            then scan_loop input (wordBuffer[bufIndex := ch]) (bufIndex + 1) st
            else Inl (AssertionFailure, st))
         else Inl (BufferOverrun, st))
      else if bufIndex > 0 then
        (if bufIndex < length wordBuffer then
           (let terminated = wordBuffer[bufIndex := NUL];
                word = c_string terminated
            in scan_loop input terminated 0 (call_AddWord word st))
         else Inl (BufferOverrun, st))
      else scan_loop input wordBuffer bufIndex st)"

text \<open>
  \<^verbatim>\<open>ProcessFile(filename)\<close>. The argument \<open>fresh\<close> is the indeterminate content of the
  array that \<^verbatim>\<open>new char[buffSize]\<close> returns.
\<close>

definition ProcessFile ::
  "string \<Rightarrow> ifstream \<Rightarrow> (nat \<Rightarrow> char) \<Rightarrow> FileIndexer \<Rightarrow> fatal \<times> FileIndexer + FileIndexer" where
  "ProcessFile filename textFile fresh st =
     (case textFile of
        CannotOpen err \<Rightarrow> Inr (st\<lparr>cout := cout st @ [FailedToOpen filename err]\<rparr>)
      | Stream content ending \<Rightarrow>
          (case scan_loop content (map fresh [0..<buffSize]) 0 st of
             Inl stop \<Rightarrow> Inl stop
           | Inr st' \<Rightarrow>
               (case ending of
                  EndOfFile \<Rightarrow> Inr st'
                | ReadError err \<Rightarrow> Inr (st'\<lparr>cout := cout st' @ [FailedReading filename err]\<rparr>))))"

text \<open>The state a call ends in, at its return or at its fatal exit.\<close>

definition final :: "fatal \<times> FileIndexer + FileIndexer \<Rightarrow> FileIndexer" where
  "final r = (case r of Inl (stop, st) \<Rightarrow> st | Inr st \<Rightarrow> st)"

text \<open>
  The pool with a single worker thread: the posted work items run one after the other,
  in posting order (one of the schedules of the pool defined below, see
  \<open>process_tasks_sequential\<close> and \<open>sequential_schedule\<close>). \<open>open_file\<close> is the file
  system at the time of the \<^verbatim>\<open>ifstream\<close> construction: what opening a name yields.
\<close>

fun process_tasks ::
  "(string \<Rightarrow> ifstream) \<Rightarrow> (nat \<Rightarrow> char) \<Rightarrow> string list \<Rightarrow> FileIndexer
     \<Rightarrow> fatal \<times> FileIndexer + FileIndexer" where
  "process_tasks open_file fresh [] st = Inr st"
| "process_tasks open_file fresh (filename # tasks) st =
     (case ProcessFile filename (open_file filename) fresh st of
        Inl stop \<Rightarrow> Inl stop
      | Inr st' \<Rightarrow> process_tasks open_file fresh tasks st')"

subsection \<open>The worker pool\<close>

text \<open>
  The threads of the pool run \<^verbatim>\<open>ProcessFile\<close> calls at the same time. A call acts on the
  state that the threads share only by its \<^verbatim>\<open>AddWord\<close> calls, each of which holds the mutex
  of the bin it works on, by the lines it writes to \<^verbatim>\<open>cout\<close> (a statement is taken as one
  action) and by the abort of the process at a failed assertion; what it does in between
  is local to its thread.
\<close>

datatype event = Call string | Line output_line | Abort

text \<open>
  The actions of a list done one after the other; an abort leaves the rest undone.
\<close>

fun run_events :: "event list \<Rightarrow> FileIndexer \<Rightarrow> fatal \<times> FileIndexer + FileIndexer" where
  "run_events [] st = Inr st"
| "run_events (Call word # rest) st = run_events rest (call_AddWord word st)"
| "run_events (Line line # rest) st = run_events rest (st\<lparr>cout := cout st @ [line]\<rparr>)"
| "run_events (Abort # rest) st = Inl (AssertionFailure, st)"

text \<open>
  The actions of a \<^verbatim>\<open>ProcessFile\<close> call in program order, read off a call on a new indexer:
  its \<^verbatim>\<open>AddWord\<close> calls, which are all made in the loop, then the line it writes after the
  loop or in place of it, then the abort.
\<close>

definition task_events :: "string \<Rightarrow> ifstream \<Rightarrow> (nat \<Rightarrow> char) \<Rightarrow> event list" where
  "task_events filename textFile fresh =
     (let r = ProcessFile filename textFile fresh (FileIndexer_new (\<lambda>word. 0)) in
      map Call (added (final r)) @ map Line (cout (final r)) @ (if isl r then [Abort] else []))"

text \<open>
  The schedules of the pool: the actions of the calls, those of each call in its program
  order, interleaved in any way. \<open>pending\<close> holds, for each call, the actions it has
  still to do. Whatever the number of threads and the order in which they take up the
  work items, the pool runs one of these schedules.
\<close>

inductive schedule_of :: "event list list \<Rightarrow> event list \<Rightarrow> bool" where
  finished: "\<forall>task \<in> set pending. task = [] \<Longrightarrow> schedule_of pending []"
| step: "k < length pending \<Longrightarrow> pending ! k = e # rest \<Longrightarrow> schedule_of (pending[k := rest]) sched
     \<Longrightarrow> schedule_of pending (e # sched)"

text \<open>
  The read of a stream that ends in a failed read fails when the loop gets to it: the
  loop leaves by its \<^verbatim>\<open>break\<close>, at the \<^verbatim>\<open>get()\<close> after the characters delivered, and not
  before that by the assertion.
\<close>

definition reaches_failing_read :: "char list \<Rightarrow> (nat \<Rightarrow> char) \<Rightarrow> FileIndexer \<Rightarrow> bool" where
  "reaches_failing_read content fresh st \<longleftrightarrow>
     \<not> isl (scan_loop content (map fresh [0..<buffSize]) 0 st)"


subsection \<open>The tokenization rule as the specification words it\<close>

definition digits :: "char list" where
  "digits = ''0123456789''"

definition lowercase :: "char list" where
  "lowercase = ''abcdefghijklmnopqrstuvwxyz''"

definition uppercase :: "char list" where
  "uppercase = ''ABCDEFGHIJKLMNOPQRSTUVWXYZ''"

definition alphanumeric :: "char \<Rightarrow> bool" where
  "alphanumeric c \<longleftrightarrow> c \<in> set (digits @ lowercase @ uppercase)"

definition fold_case :: "char \<Rightarrow> char" where
  "fold_case c = (case map_of (zip uppercase lowercase) c of Some l \<Rightarrow> l | None \<Rightarrow> c)"

text \<open>
  The rule, with the token in progress as first argument: a character of \<open>[0-9a-z]\<close> is
  appended, a character of \<open>[A-Z]\<close> is appended in lower case, any other character
  completes a token in progress, which is emitted, and resets it. The result is the list
  of emitted tokens.
\<close>

fun spec_tokens :: "string \<Rightarrow> char list \<Rightarrow> string list" where
  "spec_tokens token [] = []"
| "spec_tokens token (c # cs) =
     (if c \<in> set (digits @ lowercase) then spec_tokens (token @ [c]) cs
      else if c \<in> set uppercase then spec_tokens (token @ [fold_case c]) cs
      else if token \<noteq> [] then token # spec_tokens [] cs
      else spec_tokens [] cs)"

text \<open>
  The length of the longest run of alphanumeric characters in a text, where \<open>n\<close>
  characters of a run precede the text.
\<close>

fun longest_run :: "nat \<Rightarrow> char list \<Rightarrow> nat" where
  "longest_run n [] = n"
| "longest_run n (c # cs) =
     (if alphanumeric c then longest_run (n + 1) cs else max n (longest_run 0 cs))"

text \<open>
  The characters the loop gets through: all of the text, or the characters before the one
  at which the assertion fails.
\<close>

fun scanned :: "nat \<Rightarrow> char list \<Rightarrow> char list" where
  "scanned n [] = []"
| "scanned n (c # cs) =
     (if alphanumeric c then (if n + 1 < buffSize then c # scanned (n + 1) cs else [])
      else c # scanned 0 cs)"

text \<open>Sample contents of fresh memory, for the evaluations at concrete inputs.\<close>

definition stale :: "nat \<Rightarrow> char" where
  "stale i = CHR ''#''"

text \<open>A sample file system, for the evaluations at concrete inputs.\<close>

definition sample_files :: "string \<Rightarrow> ifstream" where
  "sample_files name =
     (if name = ''a.txt'' then Stream ''Hello hello WORLD!'' EndOfFile
      else if name = ''b.txt'' then Stream ''world wor'' (ReadError 5)
      else CannotOpen 2)"

subsection \<open>The directory walk\<close>

text \<open>
  The directory tree as the walk sees it. A directory entry has its name \<^verbatim>\<open>d_name\<close> and
  the result of \<^verbatim>\<open>lstat\<close> on its path: \<open>None\<close> when \<^verbatim>\<open>lstat\<close> fails, otherwise the file
  type of \<^verbatim>\<open>st_mode\<close>, which for a directory comes with what \<^verbatim>\<open>opendir\<close> and \<^verbatim>\<open>readdir\<close>
  yield on it: a failure with its \<^verbatim>\<open>errno\<close>, or the entries in reading order.
\<close>

datatype dir_entry = Entry (d_name: string) (lstat: "file_type option")
  and file_type = S_IFREG | S_IFLNK | S_IFDIR dir_stream | S_IFOTHER
  and dir_stream = OpendirError int | Entries "dir_entry list"

text \<open>
  \<^verbatim>\<open>len >= 4 && strcmp(&entry->d_name[len-4], ".txt") == 0\<close>
\<close>

definition ends_in_txt :: "string \<Rightarrow> bool" where
  "ends_in_txt name =
     (let len = length name in len \<ge> 4 \<and> drop (len - 4) name = ''.txt'')"

function SearchForFiles :: "string \<Rightarrow> dir_stream \<Rightarrow> FileIndexer \<Rightarrow> FileIndexer"
  and read_entries :: "string \<Rightarrow> dir_entry list \<Rightarrow> FileIndexer \<Rightarrow> FileIndexer" where
  "SearchForFiles basePath (OpendirError err) st = st\<lparr>cout := cout st @ [OpendirFailed err]\<rparr>"
| "SearchForFiles basePath (Entries entries) st = read_entries basePath entries st"
| "read_entries basePath [] st = st"
| "read_entries basePath (entry # rest) st =
     (if d_name entry = ''.'' \<or> d_name entry = ''..'' then read_entries basePath rest st
      else
        let entryPath = basePath @ ''/'' @ d_name entry in
        (case lstat entry of
           None \<Rightarrow> read_entries basePath rest st
         | Some S_IFLNK \<Rightarrow> read_entries basePath rest st
         | Some S_IFREG \<Rightarrow>
             (if ends_in_txt (d_name entry)
              then read_entries basePath rest (st\<lparr>mIOService := mIOService st @ [entryPath]\<rparr>)
              else read_entries basePath rest st)
         | Some (S_IFDIR dir) \<Rightarrow>
             read_entries basePath rest (SearchForFiles entryPath dir st)
         | Some S_IFOTHER \<Rightarrow> read_entries basePath rest st))"
  by pat_completeness auto
termination
  apply (relation "measure (\<lambda>x. case x of
          Inl (basePath, dir, st) \<Rightarrow> size dir
        | Inr (basePath, entries, st) \<Rightarrow> size_list size entries)")
     apply (auto simp: less_Suc_eq_le)
  subgoal for entry rest dir by (cases entry) simp
  done

text \<open>
  The entries a walk comes across, each with the path of the directory it is read in: the
  entries of the directory the walk starts in, and those that a walk started in a
  subdirectory comes across, for every subdirectory whose name is neither \<open>.\<close> nor
  \<open>..\<close>.
\<close>

inductive encountered :: "string \<Rightarrow> dir_stream \<Rightarrow> string \<Rightarrow> dir_entry \<Rightarrow> bool" where
  here: "entry \<in> set entries \<Longrightarrow> encountered basePath (Entries entries) basePath entry"
| below: "Entry name (Some (S_IFDIR dir)) \<in> set entries \<Longrightarrow> name \<noteq> ''.'' \<Longrightarrow> name \<noteq> ''..''
     \<Longrightarrow> encountered (basePath @ ''/'' @ name) dir path entry
     \<Longrightarrow> encountered basePath (Entries entries) path entry"

text \<open>
  The filtering rule as the specification words it, as the list of the files submitted
  for a directory: \<open>.\<close> and \<open>..\<close> are skipped, an entry whose metadata cannot be
  resolved is skipped, a symbolic link is skipped, a regular file is submitted if its name
  ends in the suffix \<open>.txt\<close>, a directory is recursed into, anything else is skipped.
\<close>

fun spec_submitted :: "string \<Rightarrow> dir_stream \<Rightarrow> string list"
  and spec_entry :: "string \<Rightarrow> dir_entry \<Rightarrow> string list" where
  "spec_submitted basePath (OpendirError err) = []"
| "spec_submitted basePath (Entries entries) = concat (map (spec_entry basePath) entries)"
| "spec_entry basePath (Entry name kind) =
     (if name \<in> {''.'', ''..''} then []
      else (case kind of
              Some S_IFREG \<Rightarrow> if suffix ''.txt'' name then [basePath @ ''/'' @ name] else []
            | Some (S_IFDIR dir) \<Rightarrow> spec_submitted (basePath @ ''/'' @ name) dir
            | _ \<Rightarrow> []))"

text \<open>A sample directory tree, for the evaluations at concrete inputs.\<close>

definition sample_tree :: dir_stream where
  "sample_tree = Entries
     [Entry ''.'' (Some (S_IFDIR (Entries []))),
      Entry ''..'' (Some (S_IFDIR (Entries []))),
      Entry ''a.txt'' (Some S_IFREG),
      Entry ''sub'' (Some (S_IFDIR (Entries
        [Entry ''c.log'' (Some S_IFREG),
         Entry ''link.txt'' (Some S_IFLNK),
         Entry ''d.txt'' (Some S_IFREG)]))),
      Entry ''B.TXT'' (Some S_IFREG),
      Entry ''gone.txt'' None,
      Entry ''locked'' (Some (S_IFDIR (OpendirError 13))),
      Entry ''pipe.txt'' (Some S_IFOTHER)]"

section \<open>Properties of the accumulator\<close>

lemma fold_collect:
  "fold (\<lambda>bin allWords. if length bin \<le> 0 then allWords else allWords @ bin) bins acc
     = acc @ concat bins"
  by (induction bins arbitrary: acc) auto

lemma collect_bins_concat: "collect_bins bins = concat bins"
  unfolding collect_bins_def fold_collect by simp

lemma fold_sizes:
  "fold (\<lambda>bin totalWords. totalWords + length bin) bins n = n + length (concat bins)"
  by (induction bins arbitrary: n) auto

lemma GetUniqueWordCount_concat: "GetUniqueWordCount s = length (concat (mBins s))"
  unfolding GetUniqueWordCount_def fold_sizes by simp

lemma concat_one_bin: "i < n \<Longrightarrow> concat ((replicate n [])[i := b]) = b"
proof (induction n arbitrary: i)
  case 0
  then show ?case by simp
next
  case (Suc n)
  then show ?case by (cases i) simp_all
qed

lemma BIN_COUNT_pos: "0 < BIN_COUNT"
  by (simp add: BIN_COUNT_def)

lemma mset_place: "mset (place before a bs) = add_mset a (mset bs)"
  by (induction bs) auto

lemma mset_std_sort: "mset (std_sort before xs) = mset xs"
  by (induction xs) (auto simp: mset_place)

lemma length_std_sort: "length (std_sort before xs) = length xs"
  using mset_std_sort [of before xs] by (metis size_mset)

lemma set_std_sort: "set (std_sort before xs) = set xs"
  using mset_std_sort [of before xs] by (metis set_mset_mset)


lemma set_place: "set (place before a bs) = insert a (set bs)"
  by (induction bs) auto

lemma non_increasing_place:
  "non_increasing bs \<Longrightarrow> non_increasing (place by_occurrence a bs)"
  unfolding non_increasing_def
  by (induction bs) (auto simp: set_place by_occurrence_def)

lemma non_increasing_std_sort: "non_increasing (std_sort by_occurrence ws)"
proof (induction ws)
  case Nil
  show ?case by (simp add: non_increasing_def)
next
  case (Cons a ws)
  then show ?case by (simp add: non_increasing_place)
qed

lemma non_increasing_take: "non_increasing ws \<Longrightarrow> non_increasing (take k ws)"
  unfolding non_increasing_def by (rule sorted_wrt_take)

lemma mBins_new: "mBins (WordAccumulator_new h) = replicate BIN_COUNT []"
  by (simp add: WordAccumulator_new_def)

lemma AddWord_new:
  "mBins (AddWord (WordAccumulator_new h) w)
     = (replicate BIN_COUNT [])[h w mod BIN_COUNT := [(w, 1)]]"
  by (simp add: AddWord_def WordAccumulator_new_def BIN_COUNT_pos)

text \<open>The guard for the empty accumulator: any count yields the empty sequence.\<close>

lemma ListTopWords_empty: "concat (mBins s) = [] \<Longrightarrow> ListTopWords s cnt = Inr []"
  by (simp add: ListTopWords_def collect_bins_concat del: concat_eq_Nil_conv)

text \<open>
  Claim C1. With one unique word recorded and a requested count of 2, \<^verbatim>\<open>ListTopWords\<close>
  does not return the one recorded pair: the iterator range it copies from ends past the
  end of \<^verbatim>\<open>allWords\<close>.
\<close>

theorem ListTopWords_past_the_end:
  "ListTopWords (AddWord (WordAccumulator_new length_hasher) ''a'') 2 = Inl SliceOutOfRange"
  by (simp add: ListTopWords_def AddWord_new collect_bins_concat concat_one_bin BIN_COUNT_pos)

lemma increment_in_bin_None: "increment_in_bin bin w = None \<longleftrightarrow> w \<notin> fst ` set bin"
  by (induction bin) (auto split: option.splits)

lemma increment_in_bin_keys:
  "increment_in_bin bin w = Some bin' \<Longrightarrow> map fst bin' = map fst bin"
  by (induction bin arbitrary: bin') (auto split: option.splits if_splits)

lemma length_AddWord: "length (mBins (AddWord s w)) = length (mBins s)"
  by (simp add: AddWord_def Let_def)

lemma mHasher_AddWord: "mHasher (AddWord s w) = mHasher s"
  by (simp add: AddWord_def Let_def)

lemma length_ClearResults: "length (mBins (ClearResults s)) = length (mBins s)"
  by (simp add: ClearResults_def)

lemma mHasher_ClearResults: "mHasher (ClearResults s) = mHasher s"
  by (simp add: ClearResults_def)

lemma run_ops_snoc: "run_ops h (ops @ [x]) = apply_op (run_ops h ops) x"
  by (simp add: run_ops_def)

lemma run_ops_shape:
  "length (mBins (run_ops h ops)) = BIN_COUNT \<and> mHasher (run_ops h ops) = h"
proof (induction ops rule: rev_induct)
  case Nil
  show ?case by (simp add: run_ops_def WordAccumulator_new_def)
next
  case (snoc x ops)
  then show ?case
    by (cases x)
       (simp_all add: run_ops_snoc length_AddWord mHasher_AddWord
          length_ClearResults mHasher_ClearResults)
qed

lemma enumerate_bins:
  "(\<forall>(i, bin) \<in> set (enumerate 0 bins). P i bin)
     \<longleftrightarrow> (\<forall>i < length bins. P i (bins ! i))"
proof
  assume l: "\<forall>(i, bin) \<in> set (enumerate 0 bins). P i bin"
  show "\<forall>i < length bins. P i (bins ! i)"
  proof (intro allI impI)
    fix i assume "i < length bins"
    then have "(i, bins ! i) \<in> set (enumerate 0 bins)" by (simp add: in_set_enumerate_eq)
    with l show "P i (bins ! i)" by blast
  qed
next
  assume r: "\<forall>i < length bins. P i (bins ! i)"
  show "\<forall>(i, bin) \<in> set (enumerate 0 bins). P i bin"
  proof (clarify)
    fix i bin assume "(i, bin) \<in> set (enumerate 0 bins)"
    then have "i < length bins" "bins ! i = bin" by (simp_all add: in_set_enumerate_eq)
    with r show "P i bin" by blast
  qed
qed

lemma in_assigned_shard_nth:
  "in_assigned_shard s \<longleftrightarrow>
     (\<forall>i < length (mBins s). distinct (map fst (mBins s ! i)) \<and>
        (\<forall>p \<in> set (mBins s ! i). shard_index s (fst p) = i))"
  unfolding in_assigned_shard_def by (rule enumerate_bins)

lemma same_except_bin_nth:
  "same_except_bin k s s' \<longleftrightarrow>
     length (mBins s') = length (mBins s) \<and>
     (\<forall>j < length (mBins s). j \<noteq> k \<longrightarrow> mBins s' ! j = mBins s ! j)"
  unfolding same_except_bin_def enumerate_bins ..

lemma AddWord_same_except: "same_except_bin (shard_index s w) s (AddWord s w)"
  by (simp add: same_except_bin_nth AddWord_def Let_def shard_index_def)

lemma AddWord_records:
  assumes "mBins s \<noteq> []"
  shows "w \<in> fst ` set (mBins (AddWord s w) ! shard_index s w)"
proof -
  let ?i = "shard_index s w"
  have i: "?i < length (mBins s)" using assms by (simp add: shard_index_def)
  show ?thesis
  proof (cases "increment_in_bin (mBins s ! ?i) w")
    case None
    with i show ?thesis by (simp add: AddWord_def Let_def shard_index_def)
  next
    case (Some bin')
    then have "map fst bin' = map fst (mBins s ! ?i)" by (rule increment_in_bin_keys)
    moreover from Some have "w \<in> fst ` set (mBins s ! ?i)"
      using increment_in_bin_None [of "mBins s ! ?i" w] by simp
    ultimately have "w \<in> fst ` set bin'" by (metis set_map)
    with i Some show ?thesis by (simp add: AddWord_def Let_def shard_index_def)
  qed
qed

lemma AddWord_in_assigned_shard:
  assumes inv: "in_assigned_shard s" and ne: "mBins s \<noteq> []"
  shows "in_assigned_shard (AddWord s w)"
proof -
  let ?k = "shard_index s w"
  have k: "?k < length (mBins s)" using ne by (simp add: shard_index_def)
  have sh: "shard_index (AddWord s w) v = shard_index s v" for v
    by (simp add: shard_index_def length_AddWord mHasher_AddWord)
  show ?thesis
    unfolding in_assigned_shard_nth length_AddWord sh
  proof (intro allI impI)
    fix i assume i: "i < length (mBins s)"
    from inv i have old: "distinct (map fst (mBins s ! i))"
      "\<forall>p \<in> set (mBins s ! i). shard_index s (fst p) = i"
      by (simp_all add: in_assigned_shard_nth)
    show "distinct (map fst (mBins (AddWord s w) ! i)) \<and>
          (\<forall>p\<in>set (mBins (AddWord s w) ! i). shard_index s (fst p) = i)"
    proof (cases "i = ?k")
      case False
      with i have "mBins (AddWord s w) ! i = mBins s ! i"
        using AddWord_same_except [of s w] by (simp add: same_except_bin_nth)
      with old show ?thesis by simp
    next
      case True
      show ?thesis
      proof (cases "increment_in_bin (mBins s ! ?k) w")
        case None
        then have fresh: "w \<notin> fst ` set (mBins s ! ?k)" by (simp add: increment_in_bin_None)
        from None k have new: "mBins (AddWord s w) ! ?k = mBins s ! ?k @ [(w, 1)]"
          by (simp add: AddWord_def Let_def shard_index_def)
        from old fresh show ?thesis unfolding True new by auto
      next
        case (Some bin')
        then have keys: "map fst bin' = map fst (mBins s ! ?k)" by (rule increment_in_bin_keys)
        from Some k have new: "mBins (AddWord s w) ! ?k = bin'"
          by (simp add: AddWord_def Let_def shard_index_def)
        have img: "fst ` set bin' = fst ` set (mBins s ! ?k)" using keys by (metis set_map)
        have "shard_index s (fst p) = ?k" if "p \<in> set bin'" for p
        proof -
          from that img have "fst p \<in> fst ` set (mBins s ! ?k)" by blast
          then obtain q where "q \<in> set (mBins s ! ?k)" "fst q = fst p" by auto
          with old(2) True show ?thesis by metis
        qed
        with old(1) keys show ?thesis unfolding True new by simp
      qed
    qed
  qed
qed

lemma ClearResults_in_assigned_shard: "in_assigned_shard (ClearResults s)"
  by (simp add: in_assigned_shard_nth ClearResults_def)

lemma run_ops_in_assigned_shard: "in_assigned_shard (run_ops h ops)"
proof (induction ops rule: rev_induct)
  case Nil
  show ?case by (simp add: run_ops_def in_assigned_shard_nth WordAccumulator_new_def)
next
  case (snoc x ops)
  have "mBins (run_ops h ops) \<noteq> []"
    using run_ops_shape [of h ops] BIN_COUNT_pos by auto
  with snoc show ?case
    by (cases x)
       (simp_all add: run_ops_snoc AddWord_in_assigned_shard ClearResults_in_assigned_shard)
qed

lemma increment_in_bin_changes: "increment_in_bin bin w = Some bin' \<Longrightarrow> bin' \<noteq> bin"
  by (induction bin arbitrary: bin') (auto split: option.splits if_splits)

lemma AddWord_changes:
  assumes "mBins s \<noteq> []"
  shows "mBins (AddWord s w) ! shard_index s w \<noteq> mBins s ! shard_index s w"
proof -
  have i: "shard_index s w < length (mBins s)" using assms by (simp add: shard_index_def)
  show ?thesis
  proof (cases "increment_in_bin (mBins s ! shard_index s w) w")
    case None
    with i show ?thesis by (simp add: AddWord_def Let_def shard_index_def)
  next
    case (Some bin')
    then have "bin' \<noteq> mBins s ! shard_index s w" by (rule increment_in_bin_changes)
    with i Some show ?thesis by (simp add: AddWord_def Let_def shard_index_def)
  qed
qed

text \<open>
  Claim C8. In every state reached from the constructor by \<^verbatim>\<open>AddWord\<close> and
  \<^verbatim>\<open>ClearResults\<close> calls, a word is assigned the one shard with index
  \<open>hash(word) mod BIN_COUNT\<close>, every recorded pair sits in the shard assigned to its word
  (and only once there), and an \<^verbatim>\<open>AddWord\<close> call records the word in its assigned
  shard, changes that shard and leaves every other shard as it was.
\<close>

theorem word_in_one_shard:
  "shard_index (run_ops h ops) word = h word mod BIN_COUNT \<and>
   shard_index (run_ops h ops) word < length (mBins (run_ops h ops)) \<and>
   in_assigned_shard (run_ops h ops) \<and>
   word \<in> fst ` set (mBins (AddWord (run_ops h ops) word) ! shard_index (run_ops h ops) word) \<and>
   mBins (AddWord (run_ops h ops) word) ! shard_index (run_ops h ops) word
     \<noteq> mBins (run_ops h ops) ! shard_index (run_ops h ops) word \<and>
   same_except_bin (shard_index (run_ops h ops) word) (run_ops h ops) (AddWord (run_ops h ops) word)"
proof -
  have shape: "length (mBins (run_ops h ops)) = BIN_COUNT" "mHasher (run_ops h ops) = h"
    using run_ops_shape [of h ops] by simp_all
  then have ne: "mBins (run_ops h ops) \<noteq> []" using BIN_COUNT_pos by auto
  have "shard_index (run_ops h ops) word = h word mod BIN_COUNT"
    using shape by (simp add: shard_index_def)
  moreover have "shard_index (run_ops h ops) word < length (mBins (run_ops h ops))"
    using ne by (simp add: shard_index_def)
  moreover note run_ops_in_assigned_shard [of h ops]
    AddWord_records [OF ne, of word] AddWord_changes [OF ne, of word]
    AddWord_same_except [of "run_ops h ops" word]
  ultimately show ?thesis by blast
qed

lemma length_hasher_a: "length_hasher ''a'' mod BIN_COUNT = 1"
  by (simp add: length_hasher_def BIN_COUNT_def)

lemma run_ops_Add_a:
  "mBins (run_ops length_hasher [Add ''a'']) = (replicate BIN_COUNT [])[1 := [(''a'', 1)]]"
  by (simp add: run_ops_def AddWord_new length_hasher_a)

theorem word_in_one_shard_witness:
  "(1, [(''a'', 1)]) \<in> set (enumerate 0 (mBins (run_ops length_hasher [Add ''a'']))) \<and>
   (''a'', 1) \<in> set [(''a'', 1::int)] \<and>
   shard_index (run_ops length_hasher [Add ''a'']) ''a'' = 1 \<and>
   1 \<noteq> shard_index (run_ops length_hasher [Add ''a'']) ''bb'' \<and>
   mBins (AddWord (run_ops length_hasher [Add ''a'']) ''bb'') ! 1 = [(''a'', 1)]"
proof -
  let ?s = "run_ops length_hasher [Add ''a'']"
  note t = word_in_one_shard [of length_hasher "[Add ''a'']" "''bb''"]
  have entry: "(1, [(''a'', 1)]) \<in> set (enumerate 0 (mBins ?s))"
    by (simp add: in_set_enumerate_eq run_ops_Add_a BIN_COUNT_def)
  from t have bb: "shard_index ?s ''bb'' = 2"
    by (simp add: length_hasher_def BIN_COUNT_def)
  from t have "in_assigned_shard ?s" by simp
  with entry have a: "shard_index ?s ''a'' = 1"
    unfolding in_assigned_shard_def by fastforce
  from t have "same_except_bin 2 ?s (AddWord ?s ''bb'')" unfolding bb by simp
  with entry have "mBins (AddWord ?s ''bb'') ! 1 = [(''a'', 1)]"
    unfolding same_except_bin_def by fastforce
  with entry a bb show ?thesis by simp
qed

lemma length_hasher_5:
  "length_hasher ''Hello'' mod BIN_COUNT = 5" "length_hasher ''hello'' mod BIN_COUNT = 5"
  by (simp_all add: length_hasher_def BIN_COUNT_def)

lemma AddWord_other_word:
  assumes "mBins s = (replicate n [])[i := [(v, c)]]" and "mHasher s w mod n = i"
    and "i < n" and "v \<noteq> w"
  shows "mBins (AddWord s w) = (replicate n [])[i := [(v, c), (w, 1)]]"
  using assms by (simp add: AddWord_def Let_def)

lemma AddWord_same_word:
  assumes "mBins s = (replicate n [])[i := [(w, c)]]" and "mHasher s w mod n = i"
    and "i < n"
  shows "mBins (AddWord s w) = (replicate n [])[i := [(w, c + 1)]]"
  using assms by (simp add: AddWord_def Let_def)

lemma AddWord_Hello_hello:
  "mBins (AddWord (AddWord (WordAccumulator_new length_hasher) ''Hello'') ''hello'') =
     (replicate BIN_COUNT [])[5 := [(''Hello'', 1), (''hello'', 1)]]"
proof (rule AddWord_other_word)
  show "mBins (AddWord (WordAccumulator_new length_hasher) ''Hello'') =
          (replicate BIN_COUNT [])[5 := [(''Hello'', 1)]]"
    by (simp add: AddWord_new length_hasher_5)
  show "mHasher (AddWord (WordAccumulator_new length_hasher) ''Hello'') ''hello'' mod BIN_COUNT = 5"
    by (simp add: mHasher_AddWord WordAccumulator_new_def length_hasher_5)
  show "5 < BIN_COUNT" by (simp add: BIN_COUNT_def)
  show "''Hello'' \<noteq> ''hello''" by simp
qed

text \<open>
  Claim C2, as stated, fails: \<^verbatim>\<open>AddWord\<close> compares words exactly, so \<open>Hello\<close> and
  \<open>hello\<close> added to the empty accumulator are two words with count 1 each.
\<close>

theorem AddWord_case_sensitive:
  "ListTopWords (AddWord (AddWord (WordAccumulator_new length_hasher) ''Hello'') ''hello'') 2
     = Inr [(''Hello'', 1), (''hello'', 1)]"
  by (simp add: ListTopWords_def AddWord_Hello_hello collect_bins_concat concat_one_bin
        BIN_COUNT_def by_occurrence_def)

lemma AddWord_one_bin:
  assumes "mBins s = (replicate n [])[i := bin]" and "mHasher s w mod n = i" and "i < n"
  shows "mBins (AddWord s w) =
           (replicate n [])[i := (case increment_in_bin bin w of
                                    Some bin' \<Rightarrow> bin' | None \<Rightarrow> bin @ [(w, 1)])]"
  using assms by (cases "increment_in_bin bin w") (simp_all add: AddWord_def Let_def)

lemma mHasher_new: "mHasher (WordAccumulator_new h) = h"
  by (simp add: WordAccumulator_new_def)

lemma length_hasher_b: "length_hasher ''b'' mod BIN_COUNT = 1"
  by (simp add: length_hasher_def BIN_COUNT_def)

lemma AddWord_b_a_a:
  "mBins (AddWord (AddWord (AddWord (WordAccumulator_new length_hasher) ''b'') ''a'') ''a'') =
     (replicate BIN_COUNT [])[1 := [(''b'', 1), (''a'', 2)]]"
proof -
  have 1: "1 < BIN_COUNT" by (simp add: BIN_COUNT_def)
  let ?s1 = "AddWord (WordAccumulator_new length_hasher) ''b''"
  have s1: "mBins ?s1 = (replicate BIN_COUNT [])[1 := [(''b'', 1)]]"
    by (simp add: AddWord_new length_hasher_b)
  have s2: "mBins (AddWord ?s1 ''a'') = (replicate BIN_COUNT [])[1 := [(''b'', 1), (''a'', 1)]]"
    using AddWord_one_bin [OF s1 _ 1, of "''a''"]
    by (simp add: mHasher_AddWord mHasher_new length_hasher_a)
  show ?thesis
    using AddWord_one_bin [OF s2 _ 1, of "''a''"]
    by (simp add: mHasher_AddWord mHasher_new length_hasher_a)
qed

text \<open>
  Claim C9. For every accumulator state and every requested count, the sequence that
  \<^verbatim>\<open>ListTopWords\<close> returns has non-increasing occurrence counts; and it does return a
  sequence, of the requested length, for every count from 0 to the number of unique words.
\<close>

theorem ListTopWords_non_increasing:
  "(\<forall>r. ListTopWords s cnt = Inr r \<longrightarrow> non_increasing r) \<and>
   (0 \<le> cnt \<and> nat cnt \<le> GetUniqueWordCount s \<longrightarrow>
      (\<exists>r. ListTopWords s cnt = Inr r \<and> length r = nat cnt))"
proof (intro conjI allI impI)
  fix r
  assume "ListTopWords s cnt = Inr r"
  then show "non_increasing r"
    by (auto simp: ListTopWords_def Let_def non_increasing_def [of "[]"]
          non_increasing_take non_increasing_std_sort split: if_splits)
next
  assume a: "0 \<le> cnt \<and> nat cnt \<le> GetUniqueWordCount s"
  show "\<exists>r. ListTopWords s cnt = Inr r \<and> length r = nat cnt"
  proof (cases "collect_bins (mBins s) = []")
    case True
    with a have "nat cnt = 0"
      by (simp add: GetUniqueWordCount_concat collect_bins_concat del: concat_eq_Nil_conv)
    with True show ?thesis by (simp add: ListTopWords_def)
  next
    case False
    with a show ?thesis
      by (simp add: ListTopWords_def Let_def GetUniqueWordCount_concat
            collect_bins_concat length_std_sort del: concat_eq_Nil_conv)
  qed
qed

theorem ListTopWords_non_increasing_witness:
  "ListTopWords (AddWord (AddWord (AddWord (WordAccumulator_new length_hasher) ''b'') ''a'') ''a'') 2
     = Inr [(''a'', 2), (''b'', 1)] \<and>
   non_increasing [(''a'', 2), (''b'', 1)] \<and>
   (0::int) \<le> 2 \<and>
   nat 2 \<le> GetUniqueWordCount
     (AddWord (AddWord (AddWord (WordAccumulator_new length_hasher) ''b'') ''a'') ''a'')"
proof -
  let ?s = "AddWord (AddWord (AddWord (WordAccumulator_new length_hasher) ''b'') ''a'') ''a''"
  have 1: "1 < BIN_COUNT" by (simp add: BIN_COUNT_def)
  have r: "ListTopWords ?s 2 = Inr [(''a'', 2), (''b'', 1)]"
    using 1 by (simp add: ListTopWords_def AddWord_b_a_a collect_bins_concat concat_one_bin
          by_occurrence_def)
  have n: "nat 2 \<le> GetUniqueWordCount ?s"
    using 1 by (simp add: GetUniqueWordCount_concat AddWord_b_a_a concat_one_bin)
  from ListTopWords_non_increasing [of ?s 2] r have "non_increasing [(''a'', 2), (''b'', 1)]"
    by simp
  with r n show ?thesis by simp
qed

section \<open>Properties of the file indexer\<close>

subsection \<open>The scanner against the tokenization rule\<close>

lemma of_char_bounds: "0 \<le> (of_char c :: int) \<and> (of_char c :: int) < 256"
proof -
  have "(of_char c :: int) mod 256 = of_char c" by simp
  moreover have "0 \<le> (of_char c :: int) mod 256 \<and> (of_char c :: int) mod 256 < 256"
    by (simp del: of_char_mod_256)
  ultimately show ?thesis by simp
qed

lemma code_in_range:
  "(lo \<le> ascii_of c \<and> ascii_of c \<le> hi) \<longleftrightarrow> c \<in> char_of ` {lo..hi}"
  if "0 \<le> lo" "hi < 128" for lo hi :: int
proof
  assume a: "lo \<le> ascii_of c \<and> ascii_of c \<le> hi"
  with that of_char_bounds [of c] have "ascii_of c = of_char c"
    by (auto simp: ascii_of_def Let_def split: if_splits)
  with a have "of_char c \<in> {lo..hi}" by simp
  then have "char_of (of_char c :: int) \<in> char_of ` {lo..hi}" by (rule imageI)
  then show "c \<in> char_of ` {lo..hi}" by simp
next
  assume "c \<in> char_of ` {lo..hi}"
  then obtain n where n: "lo \<le> n" "n \<le> hi" "c = char_of n" by auto
  with that have "of_char c = n" by (simp add: of_char_of)
  with n that show "lo \<le> ascii_of c \<and> ascii_of c \<le> hi"
    by (simp add: ascii_of_def)
qed

lemma range_list: "{lo..hi::int} = set [lo..hi]"
  by simp

lemma digits_codes: "char_of ` {48..57::int} = set digits"
  unfolding range_list by (simp add: digits_def char_of_def del: set_upto)

lemma lowercase_codes: "char_of ` {97..122::int} = set lowercase"
  unfolding range_list by (simp add: lowercase_def char_of_def del: set_upto)

lemma uppercase_codes: "char_of ` {65..90::int} = set uppercase"
  unfolding range_list by (simp add: uppercase_def char_of_def del: set_upto)


lemma fold_case_upper: "c \<in> set uppercase \<Longrightarrow> fold_case c \<in> set lowercase"
  by (auto simp: uppercase_def lowercase_def fold_case_def)

lemma fold_case_other: "c \<notin> set uppercase \<Longrightarrow> fold_case c = c"
proof -
  assume "c \<notin> set uppercase"
  then have "c \<notin> fst ` set (zip uppercase lowercase)"
    by (simp add: uppercase_def lowercase_def)
  then have "map_of (zip uppercase lowercase) c = None"
    by (simp add: map_of_eq_None_iff)
  then show ?thesis by (simp add: fold_case_def)
qed

lemma lower_upper: "c \<in> set (digits @ lowercase) \<Longrightarrow> c \<notin> set uppercase"
  by (auto simp: uppercase_def lowercase_def digits_def)

lemma shift_upper: "c \<in> set uppercase \<Longrightarrow> char_of (ascii_of c + 32) = fold_case c"
  by (auto simp: uppercase_def lowercase_def fold_case_def ascii_of_def char_of_def)

lemma classify_spec: "classify c = (alphanumeric c, fold_case c)"
proof -
  have d: "(ascii_of c \<ge> 48 \<and> ascii_of c \<le> 57) \<longleftrightarrow> c \<in> set digits"
    using code_in_range [of 48 57 c] by (simp add: digits_codes)
  have l: "(ascii_of c \<ge> 97 \<and> ascii_of c \<le> 122) \<longleftrightarrow> c \<in> set lowercase"
    using code_in_range [of 97 122 c] by (simp add: lowercase_codes)
  have u: "(ascii_of c \<ge> 65 \<and> ascii_of c \<le> 90) \<longleftrightarrow> c \<in> set uppercase"
    using code_in_range [of 65 90 c] by (simp add: uppercase_codes)
  consider (low) "c \<in> set (digits @ lowercase)" | (up) "c \<in> set uppercase"
    | (sep) "c \<notin> set (digits @ lowercase)" "c \<notin> set uppercase"
    by blast
  then show ?thesis
  proof cases
    case low
    then have "fold_case c = c" by (simp add: fold_case_other lower_upper)
    with low d l show ?thesis by (auto simp: classify_def Let_def alphanumeric_def)
  next
    case up
    then have "c \<notin> set (digits @ lowercase)" using lower_upper by blast
    with up d l u show ?thesis
      by (simp add: classify_def Let_def alphanumeric_def shift_upper)
  next
    case sep
    then have "fold_case c = c" by (simp add: fold_case_other)
    with sep d l u show ?thesis by (simp add: classify_def Let_def alphanumeric_def)
  qed
qed

lemma alphanumeric_fold_case: "alphanumeric c \<longleftrightarrow> fold_case c \<in> set (digits @ lowercase)"
proof (cases "c \<in> set uppercase")
  case True
  then show ?thesis using fold_case_upper [of c] by (simp add: alphanumeric_def)
next
  case False
  then show ?thesis by (simp add: fold_case_other alphanumeric_def)
qed

lemma spec_tokens_step:
  "spec_tokens token (c # cs) =
     (if alphanumeric c then spec_tokens (token @ [fold_case c]) cs
      else if token \<noteq> [] then token # spec_tokens [] cs
      else spec_tokens [] cs)"
proof (cases "c \<in> set (digits @ lowercase)")
  case True
  then have "fold_case c = c" by (simp add: fold_case_other lower_upper)
  with True show ?thesis by (auto simp: alphanumeric_def)
next
  case False
  then show ?thesis by (simp add: alphanumeric_def)
qed

lemma NUL_not_lower: "NUL \<notin> set (digits @ lowercase)"
  by (simp add: NUL_def digits_def lowercase_def)

lemma c_string_terminated:
  assumes "i < length buf" and "NUL \<notin> set (take i buf)"
  shows "c_string (buf[i := NUL]) = take i buf"
proof -
  have split: "buf[i := NUL] = take i buf @ NUL # drop (Suc i) buf"
    using assms(1) by (rule upd_conv_take_nth_drop)
  from assms(2) have "\<And>x. x \<in> set (take i buf) \<Longrightarrow> x \<noteq> NUL" by blast
  then have "takeWhile (\<lambda>c. c \<noteq> NUL) (take i buf @ NUL # drop (Suc i) buf)
               = take i buf @ takeWhile (\<lambda>c. c \<noteq> NUL) (NUL # drop (Suc i) buf)"
    by (rule takeWhile_append2)
  then show ?thesis unfolding c_string_def split by simp
qed

lemma fold_call_AddWord_Cons:
  "fold call_AddWord (w # ws) st = fold call_AddWord ws (call_AddWord w st)"
  by simp

lemma scan_loop_spec:
  assumes "length buf = buffSize" and "i < buffSize"
    and "set (take i buf) \<subseteq> set (digits @ lowercase)"
  shows "scan_loop cs buf i st =
           (if scanned i cs = cs
            then Inr (fold call_AddWord (spec_tokens (take i buf) (scanned i cs)) st)
            else Inl (AssertionFailure,
                      fold call_AddWord (spec_tokens (take i buf) (scanned i cs)) st))"
  using assms
proof (induction cs arbitrary: buf i st)
  case Nil
  show ?case by simp
next
  case (Cons c cs)
  let ?tok = "take i buf"
  have i: "i < length buf" using Cons.prems by simp
  show ?case
  proof (cases "alphanumeric c")
    case True
    note alnum = this
    show ?thesis
    proof (cases "Suc i < buffSize")
      case False
      with alnum i show ?thesis by (simp add: classify_spec)
    next
      case True
      let ?buf' = "buf[i := fold_case c]"
      have tok': "take (Suc i) ?buf' = ?tok @ [fold_case c]"
        using i by (simp add: take_Suc_conv_app_nth)
      have "set (take (Suc i) ?buf') \<subseteq> set (digits @ lowercase)"
        unfolding tok' using Cons.prems(3) alnum alphanumeric_fold_case [of c] by simp
      with Cons.prems True
      have "scan_loop cs ?buf' (Suc i) st =
           (if scanned (Suc i) cs = cs
            then Inr (fold call_AddWord (spec_tokens (take (Suc i) ?buf') (scanned (Suc i) cs)) st)
            else Inl (AssertionFailure,
                      fold call_AddWord (spec_tokens (take (Suc i) ?buf') (scanned (Suc i) cs)) st))"
        by (intro Cons.IH) simp_all
      with alnum i True show ?thesis
        unfolding tok' by (simp add: classify_spec spec_tokens_step del: spec_tokens.simps(2))
    qed
  next
    case False
    note sep = this
    show ?thesis
    proof (cases "i > 0")
      case False
      then have "i = 0" by simp
      with sep Cons.IH [of buf 0 st] Cons.prems show ?thesis
        by (simp add: classify_spec spec_tokens_step del: spec_tokens.simps(2))
    next
      case True
      let ?buf' = "buf[i := NUL]"
      have "NUL \<notin> set ?tok" using Cons.prems(3) NUL_not_lower by blast
      with i have word: "c_string ?buf' = ?tok" by (rule c_string_terminated)
      have ne: "?tok \<noteq> []" using True i by auto
      have "scan_loop cs ?buf' 0 (call_AddWord ?tok st) =
           (if scanned 0 cs = cs
            then Inr (fold call_AddWord (spec_tokens (take 0 ?buf') (scanned 0 cs)) (call_AddWord ?tok st))
            else Inl (AssertionFailure,
                      fold call_AddWord (spec_tokens (take 0 ?buf') (scanned 0 cs)) (call_AddWord ?tok st)))"
        using Cons.prems by (intro Cons.IH) simp_all
      with sep True i word ne show ?thesis
        by (simp add: classify_spec spec_tokens_step del: spec_tokens.simps(2))
    qed
  qed
qed

lemma ProcessFile_spec:
  "ProcessFile f (Stream content e) fresh st =
     (if scanned 0 content = content
      then Inr (case e of
                  EndOfFile \<Rightarrow> fold call_AddWord (spec_tokens [] (scanned 0 content)) st
                | ReadError err \<Rightarrow>
                    (fold call_AddWord (spec_tokens [] (scanned 0 content)) st)
                      \<lparr>cout := cout (fold call_AddWord (spec_tokens [] (scanned 0 content)) st)
                                 @ [FailedReading f err]\<rparr>)
      else Inl (AssertionFailure, fold call_AddWord (spec_tokens [] (scanned 0 content)) st))"
proof -
  have "scan_loop content (map fresh [0..<buffSize]) 0 st =
           (if scanned 0 content = content
            then Inr (fold call_AddWord
                        (spec_tokens (take 0 (map fresh [0..<buffSize])) (scanned 0 content)) st)
            else Inl (AssertionFailure,
                      fold call_AddWord
                        (spec_tokens (take 0 (map fresh [0..<buffSize])) (scanned 0 content)) st))"
    by (rule scan_loop_spec) (simp_all add: buffSize_def)
  then show ?thesis by (simp add: ProcessFile_def split: stream_end.splits)
qed

lemma added_fold: "added (fold call_AddWord ws st) = added st @ ws"
  by (induction ws arbitrary: st) (simp_all add: call_AddWord_def)

lemma cout_fold: "cout (fold call_AddWord ws st) = cout st"
  by (induction ws arbitrary: st) (simp_all add: call_AddWord_def)

lemma mIOService_fold: "mIOService (fold call_AddWord ws st) = mIOService st"
  by (induction ws arbitrary: st) (simp_all add: call_AddWord_def)

lemma mWordsFound_fold:
  "mWordsFound (fold call_AddWord ws st) = fold (\<lambda>word acc. AddWord acc word) ws (mWordsFound st)"
  by (induction ws arbitrary: st) (simp_all add: call_AddWord_def)

lemma longest_run_ge: "n \<le> longest_run n cs"
proof (induction cs arbitrary: n)
  case Nil
  show ?case by simp
next
  case (Cons c cs)
  from Cons [of "n + 1"] show ?case by simp
qed

lemma scanned_all: "n < buffSize \<Longrightarrow> scanned n cs = cs \<longleftrightarrow> longest_run n cs < buffSize"
proof (induction cs arbitrary: n)
  case Nil
  then show ?case by simp
next
  case (Cons c cs)
  show ?case
  proof (cases "alphanumeric c")
    case False
    have "0 < buffSize" by (simp add: buffSize_def)
    with Cons.IH [of 0] False Cons.prems show ?thesis by simp
  next
    case True
    show ?thesis
    proof (cases "Suc n < buffSize")
      case True
      with Cons.IH [of "Suc n"] \<open>alphanumeric c\<close> show ?thesis by simp
    next
      case False
      with longest_run_ge [of "Suc n" cs] have "\<not> longest_run (Suc n) cs < buffSize" by simp
      with False True show ?thesis by simp
    qed
  qed
qed

lemma spec_tokens_words:
  "set token \<subseteq> set (digits @ lowercase) \<Longrightarrow> w \<in> set (spec_tokens token cs)
     \<Longrightarrow> w \<noteq> [] \<and> set w \<subseteq> set (digits @ lowercase)"
proof (induction cs arbitrary: token)
  case Nil
  then show ?case by simp
next
  case (Cons c cs)
  show ?case
  proof (cases "alphanumeric c")
    case True
    then have "set (token @ [fold_case c]) \<subseteq> set (digits @ lowercase)"
      using Cons.prems(1) alphanumeric_fold_case [of c] by simp
    moreover from True Cons.prems(2) have "w \<in> set (spec_tokens (token @ [fold_case c]) cs)"
      by (simp add: spec_tokens_step del: spec_tokens.simps(2))
    ultimately show ?thesis by (rule Cons.IH)
  next
    case False
    with Cons.prems(2) have "w = token \<and> token \<noteq> [] \<or> w \<in> set (spec_tokens [] cs)"
      by (auto simp: spec_tokens_step simp del: spec_tokens.simps(2) split: if_splits)
    then show ?thesis
    proof
      assume "w = token \<and> token \<noteq> []"
      with Cons.prems(1) show ?thesis by simp
    next
      assume "w \<in> set (spec_tokens [] cs)"
      with Cons.IH [of "[]"] show ?thesis by simp
    qed
  qed
qed

lemma spec_tokens_alnum_tail:
  "\<forall>c \<in> set tail. alphanumeric c \<Longrightarrow> spec_tokens token (scanned n tail) = []"
proof (induction tail arbitrary: token n)
  case Nil
  show ?case by simp
next
  case (Cons c tail)
  then show ?case by (simp add: spec_tokens_step del: spec_tokens.simps(2))
qed

lemma spec_tokens_scanned_append:
  "\<forall>c \<in> set tail. alphanumeric c
     \<Longrightarrow> spec_tokens token (scanned n (body @ tail)) = spec_tokens token (scanned n body)"
proof (induction body arbitrary: token n)
  case Nil
  then show ?case by (simp add: spec_tokens_alnum_tail)
next
  case (Cons c body)
  then show ?case by (simp add: spec_tokens_step del: spec_tokens.simps(2))
qed

lemma final_ProcessFile:
  "final (ProcessFile f (Stream content e) fresh st) =
     (let S = fold call_AddWord (spec_tokens [] (scanned 0 content)) st in
      if scanned 0 content = content
      then (case e of EndOfFile \<Rightarrow> S | ReadError err \<Rightarrow> S\<lparr>cout := cout S @ [FailedReading f err]\<rparr>)
      else S)"
  by (simp add: ProcessFile_spec final_def Let_def)

lemma added_final_ProcessFile:
  "added (final (ProcessFile f (Stream content e) fresh st)) =
     added st @ spec_tokens [] (scanned 0 content)"
  by (simp add: final_ProcessFile Let_def added_fold split: stream_end.splits)

lemma mWordsFound_final_ProcessFile:
  "mWordsFound (final (ProcessFile f (Stream content e) fresh st)) =
     fold (\<lambda>word acc. AddWord acc word) (spec_tokens [] (scanned 0 content)) (mWordsFound st)"
  by (simp add: final_ProcessFile Let_def mWordsFound_fold split: stream_end.splits)


text \<open>
  \<open>longest_run 0\<close> is the greatest length of a segment of alphanumeric characters: it
  bounds the length of every such segment, and some such segment has that length.
\<close>

lemma longest_run_prefix:
  "\<forall>c \<in> set run. alphanumeric c \<Longrightarrow> longest_run n (run @ cs) = longest_run (n + length run) cs"
  by (induction run arbitrary: n) simp_all

lemma longest_run_covers:
  assumes "\<forall>c \<in> set run. alphanumeric c"
  shows "length run \<le> longest_run n (before @ run @ after)"
proof (induction before arbitrary: n)
  case Nil
  have "n + length run \<le> longest_run (n + length run) after" by (rule longest_run_ge)
  with assms show ?case by (simp add: longest_run_prefix)
next
  case (Cons c before)
  from Cons [of "n + 1"] Cons [of 0] show ?case by (simp add: max.coboundedI2)
qed

lemma longest_run_attained:
  "longest_run n cs = n + length (takeWhile alphanumeric cs) \<or>
   (\<exists>before run after. cs = before @ run @ after \<and> (\<forall>c \<in> set run. alphanumeric c) \<and>
      length run = longest_run n cs)"
proof (induction cs arbitrary: n)
  case Nil
  show ?case by simp
next
  case (Cons c cs)
  show ?case
  proof (cases "alphanumeric c")
    case True
    from Cons [of "n + 1"] show ?thesis
    proof
      assume "longest_run (n + 1) cs = n + 1 + length (takeWhile alphanumeric cs)"
      with True show ?thesis by simp
    next
      assume "\<exists>before run after. cs = before @ run @ after \<and> (\<forall>c \<in> set run. alphanumeric c) \<and>
        length run = longest_run (n + 1) cs"
      then obtain before run after where "cs = before @ run @ after"
        "\<forall>c \<in> set run. alphanumeric c" "length run = longest_run (n + 1) cs" by blast
      with True have "c # cs = (c # before) @ run @ after \<and> (\<forall>c \<in> set run. alphanumeric c) \<and>
        length run = longest_run n (c # cs)" by simp
      then show ?thesis by blast
    qed
  next
    case False
    show ?thesis
    proof (cases "longest_run 0 cs \<le> n")
      case True
      with False show ?thesis by simp
    next
      case big: False
      from Cons [of 0] have "\<exists>before run after. cs = before @ run @ after \<and>
        (\<forall>c \<in> set run. alphanumeric c) \<and> length run = longest_run 0 cs"
      proof
        assume "longest_run 0 cs = 0 + length (takeWhile alphanumeric cs)"
        then have "cs = [] @ takeWhile alphanumeric cs @ dropWhile alphanumeric cs \<and>
          (\<forall>c \<in> set (takeWhile alphanumeric cs). alphanumeric c) \<and>
          length (takeWhile alphanumeric cs) = longest_run 0 cs"
          by (auto dest: set_takeWhileD)
        then show ?thesis by blast
      qed
      then obtain before run after where "cs = before @ run @ after"
        "\<forall>c \<in> set run. alphanumeric c" "length run = longest_run 0 cs" by blast
      with False big have "c # cs = (c # before) @ run @ after \<and>
        (\<forall>c \<in> set run. alphanumeric c) \<and> length run = longest_run n (c # cs)" by simp
      then show ?thesis by blast
    qed
  qed
qed


lemma scanned_replicate:
  "alphanumeric a \<Longrightarrow> n + k < buffSize
     \<Longrightarrow> scanned n (replicate k a @ xs) = replicate k a @ scanned (n + k) xs"
  by (induction k arbitrary: n) simp_all

lemma longest_run_replicate:
  "alphanumeric a \<Longrightarrow> longest_run n (replicate k a @ xs) = longest_run (n + k) xs"
  by (induction k arbitrary: n) simp_all

lemma spec_tokens_replicate:
  "a \<in> set (digits @ lowercase)
     \<Longrightarrow> spec_tokens token (replicate k a @ xs) = spec_tokens (token @ replicate k a) xs"
proof (induction k arbitrary: token)
  case 0
  show ?case by simp
next
  case (Suc k)
  from Suc.prems have "spec_tokens token (replicate (Suc k) a @ xs)
      = spec_tokens (token @ [a]) (replicate k a @ xs)" by auto
  also have "\<dots> = spec_tokens ((token @ [a]) @ replicate k a) xs"
    using Suc.prems by (rule Suc.IH)
  finally show ?case by (simp add: replicate_app_Cons_same)
qed

lemma alphanumeric_a: "alphanumeric CHR ''a''" "CHR ''a'' \<in> set (digits @ lowercase)"
  by (simp_all add: alphanumeric_def lowercase_def)

lemma scanned_long_run:
  "scanned 0 (replicate 2048 CHR ''a'' @ xs) = replicate 2047 CHR ''a''"
proof -
  have "replicate 2048 CHR ''a'' @ xs = replicate 2047 CHR ''a'' @ (CHR ''a'' # xs)"
    by (simp add: replicate_app_Cons_same flip: replicate_Suc)
  then have "scanned 0 (replicate 2048 CHR ''a'' @ xs)
      = replicate 2047 CHR ''a'' @ scanned (0 + 2047) (CHR ''a'' # xs)"
    using scanned_replicate [of "CHR ''a''" 0 2047 "CHR ''a'' # xs"]
    by (simp add: alphanumeric_a buffSize_def)
  then show ?thesis by (simp add: alphanumeric_a buffSize_def)
qed

lemma long_run_aborts:
  "ProcessFile f (Stream (replicate 2048 CHR ''a'' @ xs) e) fresh st = Inl (AssertionFailure, st)"
proof -
  have "length (replicate 2047 CHR ''a'') \<noteq> length (replicate 2048 CHR ''a'' @ xs)" by simp
  then have "replicate 2047 CHR ''a'' \<noteq> replicate 2048 CHR ''a'' @ xs" by metis
  moreover have "spec_tokens [] (replicate 2047 CHR ''a'') = []"
    using spec_tokens_replicate [OF alphanumeric_a(2), of "[]" 2047 "[]"] by simp
  ultimately show ?thesis by (simp add: ProcessFile_spec scanned_long_run)
qed

lemma sample_scan: "spec_tokens [] ''Hello hello WORLD!'' = [''hello'', ''hello'', ''world'']"
  by (simp add: digits_def lowercase_def uppercase_def fold_case_def)

lemma sample_run: "longest_run 0 ''Hello hello WORLD!'' = 5"
  by (simp add: alphanumeric_def digits_def lowercase_def uppercase_def)

text \<open>
  Claim C4, as stated for every input, fails: on 2048 letters followed by a blank the
  rule emits one token of 2048 characters, while the scan ends in the failed assertion
  before any \<^verbatim>\<open>AddWord\<close> call.
\<close>

theorem long_token_not_emitted:
  "ProcessFile ''big.txt'' (Stream (replicate 2048 CHR ''a'' @ '' '') EndOfFile) stale
       (FileIndexer_new length_hasher)
     = Inl (AssertionFailure, FileIndexer_new length_hasher) \<and>
   added (FileIndexer_new length_hasher) = [] \<and>
   spec_tokens [] (replicate 2048 CHR ''a'' @ '' '') = [replicate 2048 CHR ''a'']"
proof -
  have "spec_tokens [] (replicate 2048 CHR ''a'' @ '' '') = [replicate 2048 CHR ''a'']"
    using spec_tokens_replicate [OF alphanumeric_a(2), of "[]" 2048 "'' ''"]
    by (simp add: digits_def lowercase_def uppercase_def)
  then show ?thesis by (simp add: long_run_aborts FileIndexer_new_def)
qed

text \<open>
  Claim C4, amended. For every character stream in which no run of alphanumeric characters
  is longer than 2047, the scan returns and the \<^verbatim>\<open>AddWord\<close> calls it makes are, in order,
  exactly the tokens of the tokenization rule: a character of \<open>[0-9a-z]\<close> is appended to
  the token in progress, a character of \<open>[A-Z]\<close> is appended in lower case, and any other
  character completes a token in progress with one call and resets it.
\<close>

theorem scanner_follows_rule:
  assumes "longest_run 0 content \<le> 2047"
  shows "\<exists>st'. ProcessFile f (Stream content e) fresh st = Inr st' \<and>
           added st' = added st @ spec_tokens [] content \<and>
           mWordsFound st' =
             fold (\<lambda>word acc. AddWord acc word) (spec_tokens [] content) (mWordsFound st)"
proof -
  from assms have "scanned 0 content = content"
    by (auto simp: scanned_all buffSize_def)
  then show ?thesis
    by (cases e) (simp_all add: ProcessFile_spec added_fold mWordsFound_fold)
qed

theorem scanner_follows_rule_witness:
  "longest_run 0 ''Hello hello WORLD!'' \<le> 2047 \<and>
   (\<exists>st'. ProcessFile ''a.txt'' (Stream ''Hello hello WORLD!'' EndOfFile) stale
             (FileIndexer_new length_hasher) = Inr st' \<and>
          added st' = [''hello'', ''hello'', ''world''])"
proof -
  have le: "longest_run 0 ''Hello hello WORLD!'' \<le> 2047"
    unfolding sample_run by simp
  from scanner_follows_rule [OF le, of "''a.txt''" EndOfFile stale "FileIndexer_new length_hasher"]
  obtain st' where r: "ProcessFile ''a.txt'' (Stream ''Hello hello WORLD!'' EndOfFile) stale
             (FileIndexer_new length_hasher) = Inr st'"
    and a: "added st' = added (FileIndexer_new length_hasher) @ spec_tokens [] ''Hello hello WORLD!''"
    by blast
  from a have "added st' = [''hello'', ''hello'', ''world'']"
    unfolding sample_scan by (simp add: FileIndexer_new_def)
  with r le show ?thesis by blast
qed


text \<open>
  Claim C5. The maximum token length is 2047: a file in which no run of alphanumeric
  characters is longer than 2047 is scanned without the assertion failing; a longer run
  makes the assertion fail, which ends the scan and the processing of all further work
  items; and no scan ever accesses \<^verbatim>\<open>wordBuffer\<close> out of bounds.
\<close>

theorem token_length_limit:
  "(longest_run 0 content \<le> 2047 \<longrightarrow>
      (\<exists>st'. ProcessFile f (Stream content e) fresh st = Inr st')) \<and>
   (longest_run 0 content > 2047 \<longrightarrow>
      (\<exists>st'. ProcessFile f (Stream content e) fresh st = Inl (AssertionFailure, st')) \<and>
      (open_file f = Stream content e \<longrightarrow>
         (\<exists>st'. process_tasks open_file fresh (f # tasks) st = Inl (AssertionFailure, st')))) \<and>
   (\<forall>st'. ProcessFile f src fresh st \<noteq> Inl (BufferOverrun, st'))"
proof -
  have all: "scanned 0 content = content \<longleftrightarrow> longest_run 0 content \<le> 2047"
    by (auto simp: scanned_all buffSize_def)
  have "\<forall>st'. ProcessFile f src fresh st \<noteq> Inl (BufferOverrun, st')"
  proof (cases src)
    case (CannotOpen err)
    then show ?thesis by (simp add: ProcessFile_def)
  next
    case (Stream chars ending)
    then show ?thesis by (simp add: ProcessFile_spec)
  qed
  moreover have "longest_run 0 content \<le> 2047
      \<longrightarrow> (\<exists>st'. ProcessFile f (Stream content e) fresh st = Inr st')"
    using all by (simp add: ProcessFile_spec)
  moreover have "longest_run 0 content > 2047
      \<longrightarrow> (\<exists>st'. ProcessFile f (Stream content e) fresh st = Inl (AssertionFailure, st'))"
    using all by (simp add: ProcessFile_spec)
  moreover have "longest_run 0 content > 2047 \<longrightarrow> open_file f = Stream content e
      \<longrightarrow> (\<exists>st'. process_tasks open_file fresh (f # tasks) st = Inl (AssertionFailure, st'))"
    using all by (simp add: ProcessFile_spec)
  ultimately show ?thesis by blast
qed
theorem token_length_limit_witness:
  "longest_run 0 ''Hello hello WORLD!'' \<le> 2047 \<and>
   (\<exists>st'. ProcessFile ''a.txt'' (Stream ''Hello hello WORLD!'' EndOfFile) stale
             (FileIndexer_new length_hasher) = Inr st') \<and>
   longest_run 0 (replicate 2048 CHR ''a'') > 2047 \<and>
   sample_files ''a.txt'' = Stream ''Hello hello WORLD!'' EndOfFile \<and>
   (\<exists>st'. ProcessFile ''big.txt'' (Stream (replicate 2048 CHR ''a'') EndOfFile) stale
             (FileIndexer_new length_hasher) = Inl (AssertionFailure, st'))"
proof -
  have le: "longest_run 0 ''Hello hello WORLD!'' \<le> 2047"
    unfolding sample_run by simp
  have long: "longest_run 0 (replicate 2048 CHR ''a'') > 2047"
    using longest_run_replicate [of "CHR ''a''" 0 2048 "[]"] by (simp add: alphanumeric_a)
  have opened: "sample_files ''a.txt'' = Stream ''Hello hello WORLD!'' EndOfFile"
    by (simp add: sample_files_def)
  from token_length_limit [of "''Hello hello WORLD!''" "''a.txt''" EndOfFile stale
      "FileIndexer_new length_hasher" sample_files "[]" "CannotOpen 2"] le
  have short: "\<exists>st'. ProcessFile ''a.txt'' (Stream ''Hello hello WORLD!'' EndOfFile) stale
             (FileIndexer_new length_hasher) = Inr st'"
    by blast
  from token_length_limit [of "replicate 2048 CHR ''a''" "''big.txt''" EndOfFile stale
      "FileIndexer_new length_hasher" sample_files "[]" "CannotOpen 2"] long
  have "\<exists>st'. ProcessFile ''big.txt'' (Stream (replicate 2048 CHR ''a'') EndOfFile) stale
             (FileIndexer_new length_hasher) = Inl (AssertionFailure, st')"
    by blast
  with le long opened short show ?thesis by blast
qed


lemma sample_scanned: "scanned 0 ''Hello hello WORLD!'' = ''Hello hello WORLD!''"
  by (simp add: alphanumeric_def digits_def lowercase_def uppercase_def buffSize_def)

lemma sample_body:
  "scanned 0 ''Hello '' = ''Hello ''" "spec_tokens [] ''Hello '' = [''hello'']"
  by (simp_all add: alphanumeric_def digits_def lowercase_def uppercase_def buffSize_def
        fold_case_def)

lemma added_new: "added (FileIndexer_new h) = []"
  by (simp add: FileIndexer_new_def)

text \<open>
  Claim C3. When the content of a file ends with alphanumeric characters, the scan makes
  the same \<^verbatim>\<open>AddWord\<close> calls, and leaves the same accumulator, as the scan of the content
  without them: no call is made for the trailing, non-terminated token.
\<close>

theorem trailing_token_dropped:
  assumes "\<forall>c \<in> set tail. alphanumeric c"
  shows "added (final (ProcessFile f (Stream (body @ tail) e) fresh st))
           = added (final (ProcessFile f (Stream body e) fresh st)) \<and>
         mWordsFound (final (ProcessFile f (Stream (body @ tail) e) fresh st))
           = mWordsFound (final (ProcessFile f (Stream body e) fresh st))"
  using assms
  by (simp add: added_final_ProcessFile mWordsFound_final_ProcessFile spec_tokens_scanned_append)

theorem trailing_token_dropped_witness:
  "list_all alphanumeric ''world'' \<and>
   added (final (ProcessFile ''a.txt'' (Stream (''Hello '' @ ''world'') EndOfFile) stale
                   (FileIndexer_new length_hasher))) = [''hello'']"
proof -
  have tail: "\<forall>c \<in> set ''world''. alphanumeric c"
    by (simp add: alphanumeric_def lowercase_def)
  have "added (final (ProcessFile ''a.txt'' (Stream ''Hello '' EndOfFile) stale
                   (FileIndexer_new length_hasher))) = [''hello'']"
    unfolding added_final_ProcessFile sample_body added_new by simp
  with trailing_token_dropped [OF tail, of "''a.txt''" "''Hello ''" EndOfFile stale
      "FileIndexer_new length_hasher"]
  have "added (final (ProcessFile ''a.txt'' (Stream (''Hello '' @ ''world'') EndOfFile) stale
                   (FileIndexer_new length_hasher))) = [''hello'']"
    by (simp only:)
  moreover from tail have "list_all alphanumeric ''world''" by (simp only: list_all_iff)
  ultimately show ?thesis by (simp only: simp_thms)
qed

text \<open>
  Claim C10. Whatever the file, every word that \<^verbatim>\<open>ProcessFile\<close> passes to \<^verbatim>\<open>AddWord\<close>
  is non-empty and consists of characters of \<open>[0-9a-z]\<close> only.
\<close>

theorem emitted_words_lower_alnum:
  "\<exists>ws. added (final (ProcessFile f src fresh st)) = added st @ ws \<and>
        (\<forall>w \<in> set ws. w \<noteq> [] \<and> set w \<subseteq> set (digits @ lowercase))"
proof (cases src)
  case (CannotOpen err)
  then show ?thesis by (simp add: ProcessFile_def final_def)
next
  case (Stream content e)
  have "\<forall>w \<in> set (spec_tokens [] (scanned 0 content)).
          w \<noteq> [] \<and> set w \<subseteq> set (digits @ lowercase)"
    using spec_tokens_words [of "[]"] by simp
  with Stream show ?thesis
    using added_final_ProcessFile [of f content e fresh st] by blast
qed

theorem emitted_words_lower_alnum_witness:
  "\<exists>ws. added (final (ProcessFile ''a.txt'' (Stream ''Hello hello WORLD!'' EndOfFile) stale
                       (FileIndexer_new length_hasher)))
          = added (FileIndexer_new length_hasher) @ ws \<and>
        ''hello'' \<in> set ws \<and>
        (\<forall>w \<in> set ws. w \<noteq> [] \<and> set w \<subseteq> set (digits @ lowercase))"
proof -
  let ?r = "final (ProcessFile ''a.txt'' (Stream ''Hello hello WORLD!'' EndOfFile) stale
                       (FileIndexer_new length_hasher))"
  from emitted_words_lower_alnum [of "''a.txt''" "Stream ''Hello hello WORLD!'' EndOfFile"
      stale "FileIndexer_new length_hasher"]
  obtain ws where a: "added ?r = added (FileIndexer_new length_hasher) @ ws"
    and b: "\<forall>w \<in> set ws. w \<noteq> [] \<and> set w \<subseteq> set (digits @ lowercase)"
    by blast
  have "added ?r = added (FileIndexer_new length_hasher) @ [''hello'', ''hello'', ''world'']"
    unfolding added_final_ProcessFile sample_scanned sample_scan ..
  with a have "ws = [''hello'', ''hello'', ''world'']" by (simp only: same_append_eq)
  then have "''hello'' \<in> set ws" by simp
  with a b show ?thesis by blast
qed

subsection \<open>The worker pool\<close>

lemma run_events_calls:
  "run_events (map Call ws @ es) st = run_events es (fold call_AddWord ws st)"
  by (induction ws arbitrary: st) simp_all

lemma task_events_CannotOpen: "task_events f (CannotOpen err) fresh = [Line (FailedToOpen f err)]"
  by (simp add: task_events_def ProcessFile_def final_def FileIndexer_new_def)

lemma task_events_Stream:
  "task_events f (Stream content e) fresh =
     map Call (spec_tokens [] (scanned 0 content)) @
     (if scanned 0 content = content
      then (case e of EndOfFile \<Rightarrow> [] | ReadError err \<Rightarrow> [Line (FailedReading f err)])
      else [Abort])"
proof -
  have new: "added (FileIndexer_new h) = []" "cout (FileIndexer_new h) = []" for h
    by (simp_all add: FileIndexer_new_def)
  show ?thesis
    by (cases e)
       (simp_all add: task_events_def Let_def ProcessFile_spec final_def added_fold cout_fold new)
qed

lemma task_events_run:
  "ProcessFile f src fresh st = run_events (task_events f src fresh) st"
proof (cases src)
  case (CannotOpen err)
  then show ?thesis by (simp add: task_events_CannotOpen ProcessFile_def)
next
  case (Stream content e)
  then show ?thesis
    by (cases e) (simp_all add: task_events_Stream ProcessFile_spec run_events_calls cout_fold)
qed

lemma reaches_failing_read_scanned:
  "reaches_failing_read content fresh st \<longleftrightarrow> scanned 0 content = content"
proof -
  have "scan_loop content (map fresh [0..<buffSize]) 0 st =
           (if scanned 0 content = content
            then Inr (fold call_AddWord
                        (spec_tokens (take 0 (map fresh [0..<buffSize])) (scanned 0 content)) st)
            else Inl (AssertionFailure,
                      fold call_AddWord
                        (spec_tokens (take 0 (map fresh [0..<buffSize])) (scanned 0 content)) st))"
    by (rule scan_loop_spec) (simp_all add: buffSize_def)
  then show ?thesis by (simp add: reaches_failing_read_def)
qed

lemma reaches_failing_read_runs:
  "reaches_failing_read content fresh st \<longleftrightarrow> longest_run 0 content \<le> 2047"
  by (auto simp: reaches_failing_read_scanned scanned_all buffSize_def)




lemma run_events_append:
  "run_events (es @ es') st =
     (case run_events es st of Inl stop \<Rightarrow> Inl stop | Inr st' \<Rightarrow> run_events es' st')"
proof (induction es arbitrary: st)
  case Nil
  show ?case by simp
next
  case (Cons e es)
  then show ?case by (cases e) simp_all
qed

lemma process_tasks_sequential:
  "process_tasks open_file fresh names st =
     run_events (concat (map (\<lambda>name. task_events name (open_file name) fresh) names)) st"
  by (induction names arbitrary: st)
     (simp_all add: run_events_append task_events_run split: sum.splits)

lemma sequential_schedule_aux:
  "\<forall>task \<in> set idle. task = [] \<Longrightarrow> schedule_of (idle @ pending) (concat pending)"
proof (induction pending arbitrary: idle)
  case Nil
  then show ?case by (simp add: schedule_of.finished)
next
  case (Cons task pending)
  from Cons.prems show ?case
  proof (induction task)
    case Nil
    then have "\<forall>task \<in> set (idle @ [[]]). task = []" by simp
    from Cons.IH [OF this] show ?case by simp
  next
    case (Cons e task)
    have "schedule_of (idle @ (e # task) # pending) (e # task @ concat pending)"
    proof (rule schedule_of.step [where k = "length idle" and rest = task])
      show "length idle < length (idle @ (e # task) # pending)" by simp
      show "(idle @ (e # task) # pending) ! length idle = e # task" by simp
      from Cons show "schedule_of ((idle @ (e # task) # pending)[length idle := task])
          (task @ concat pending)" by simp
    qed
    then show ?case by simp
  qed
qed

lemma sequential_schedule: "schedule_of pending (concat pending)"
  using sequential_schedule_aux [of "[]" pending] by simp













lemma alphanumeric_same_fold: "fold_case c = fold_case d \<Longrightarrow> alphanumeric c = alphanumeric d"
  by (simp add: alphanumeric_fold_case)

lemma spec_tokens_scanned_case:
  "map fold_case cs = map fold_case ds
     \<Longrightarrow> spec_tokens token (scanned n cs) = spec_tokens token (scanned n ds)"
proof (induction cs arbitrary: ds token n)
  case Nil
  then show ?case by simp
next
  case (Cons c cs)
  then obtain d ds' where ds: "ds = d # ds'" and c: "fold_case c = fold_case d"
    and rest: "map fold_case cs = map fold_case ds'"
    by (cases ds) auto
  from c have a: "alphanumeric c = alphanumeric d" by (rule alphanumeric_same_fold)
  show ?case
    unfolding ds using a c Cons.IH [OF rest]
    by (simp add: spec_tokens_step del: spec_tokens.simps(2))
qed

lemma AddWord_twice:
  "mBins (AddWord (AddWord (WordAccumulator_new h) w) w)
     = (replicate BIN_COUNT [])[h w mod BIN_COUNT := [(w, 2)]]"
proof -
  have i: "h w mod BIN_COUNT < BIN_COUNT" using BIN_COUNT_pos by simp
  have "mHasher (AddWord (WordAccumulator_new h) w) w mod BIN_COUNT = h w mod BIN_COUNT"
    by (simp add: mHasher_AddWord mHasher_new)
  from AddWord_one_bin [OF AddWord_new this i] show ?thesis by simp
qed

lemma sample_pair:
  "scanned 0 ''Hello hello '' = ''Hello hello ''"
  "spec_tokens [] ''Hello hello '' = [''hello'', ''hello'']"
  by (simp_all add: alphanumeric_def digits_def lowercase_def uppercase_def buffSize_def
        fold_case_def)

lemma mWordsFound_new: "mWordsFound (FileIndexer_new h) = WordAccumulator_new h"
  by (simp add: FileIndexer_new_def)

text \<open>
  Claim C2, amended. The letter case is folded by the scanner, not by \<^verbatim>\<open>AddWord\<close>: two
  texts that differ only in letter case make \<^verbatim>\<open>ProcessFile\<close> pass the same words to
  \<^verbatim>\<open>AddWord\<close> and leave the same accumulator, and the scan of a file with the content
  \<open>Hello hello\<close> (each word followed by a blank) into the empty accumulator yields the
  count 2 for the word \<open>hello\<close>.
\<close>

theorem scanner_folds_case:
  assumes "map fold_case text1 = map fold_case text2"
  shows "added (final (ProcessFile f (Stream text1 e) fresh st))
           = added (final (ProcessFile f (Stream text2 e) fresh st)) \<and>
         mWordsFound (final (ProcessFile f (Stream text1 e) fresh st))
           = mWordsFound (final (ProcessFile f (Stream text2 e) fresh st)) \<and>
         ListTopWords (mWordsFound (final (ProcessFile f (Stream ''Hello hello '' EndOfFile) fresh
                                      (FileIndexer_new h)))) 1
           = Inr [(''hello'', 2)]"
proof -
  have same: "spec_tokens [] (scanned 0 text1) = spec_tokens [] (scanned 0 text2)"
    using assms by (rule spec_tokens_scanned_case)
  have "mBins (mWordsFound (final (ProcessFile f (Stream ''Hello hello '' EndOfFile) fresh
                                      (FileIndexer_new h))))
          = (replicate BIN_COUNT [])[h ''hello'' mod BIN_COUNT := [(''hello'', 2)]]"
    unfolding mWordsFound_final_ProcessFile sample_pair mWordsFound_new
    by (simp add: AddWord_twice)
  then have "ListTopWords (mWordsFound (final (ProcessFile f (Stream ''Hello hello '' EndOfFile)
                 fresh (FileIndexer_new h)))) 1 = Inr [(''hello'', 2)]"
    using BIN_COUNT_pos by (simp add: ListTopWords_def collect_bins_concat concat_one_bin)
  with same show ?thesis
    by (simp only: added_final_ProcessFile mWordsFound_final_ProcessFile simp_thms)
qed

lemma sample_case: "map fold_case ''Hello '' = map fold_case ''hELLO ''"
  by (simp add: fold_case_def uppercase_def lowercase_def)

theorem scanner_folds_case_witness:
  "map fold_case ''Hello '' = map fold_case ''hELLO '' \<and>
   added (final (ProcessFile ''a.txt'' (Stream ''hELLO '' EndOfFile) stale
                   (FileIndexer_new length_hasher))) = [''hello''] \<and>
   ListTopWords (mWordsFound (final (ProcessFile ''a.txt'' (Stream ''Hello hello '' EndOfFile)
                   stale (FileIndexer_new length_hasher)))) 1 = Inr [(''hello'', 2)]"
proof -
  note t = scanner_folds_case [OF sample_case, of "''a.txt''" EndOfFile stale
      "FileIndexer_new length_hasher" length_hasher]
  have "added (final (ProcessFile ''a.txt'' (Stream ''Hello '' EndOfFile) stale
                   (FileIndexer_new length_hasher))) = [''hello'']"
    unfolding added_final_ProcessFile sample_body added_new by simp
  with t have "added (final (ProcessFile ''a.txt'' (Stream ''hELLO '' EndOfFile) stale
                   (FileIndexer_new length_hasher))) = [''hello'']"
    by (simp only:)
  with t sample_case show ?thesis by blast
qed

subsection \<open>The directory walk\<close>

lemma ends_in_txt_suffix: "ends_in_txt name \<longleftrightarrow> suffix ''.txt'' name"
proof
  assume "ends_in_txt name"
  then have "drop (length name - 4) name = ''.txt''" by (simp add: ends_in_txt_def Let_def)
  then have "name = take (length name - 4) name @ ''.txt''"
    by (metis append_take_drop_id)
  then show "suffix ''.txt'' name" by (rule suffixI)
next
  assume "suffix ''.txt'' name"
  then obtain stem where "name = stem @ ''.txt''" by (rule suffixE)
  then show "ends_in_txt name" by (simp add: ends_in_txt_def)
qed

lemma walk_posts:
  "mIOService (SearchForFiles basePath dir st) = mIOService st @ spec_submitted basePath dir"
  "mIOService (read_entries basePath entries st)
     = mIOService st @ concat (map (spec_entry basePath) entries)"
proof (induction basePath dir st and basePath entries st rule: SearchForFiles_read_entries.induct)
  case (1 basePath err st)
  show ?case by simp
next
  case (2 basePath entries st)
  then show ?case by simp
next
  case (3 basePath st)
  show ?case by simp
next
  case (4 basePath entry rest st)
  obtain name kind where entry: "entry = Entry name kind" by (cases entry)
  from 4 show ?case
    unfolding entry
    by (auto simp: Let_def ends_in_txt_suffix split: option.splits file_type.splits)
qed

lemma walk_keeps:
  "mWordsFound (SearchForFiles basePath dir st) = mWordsFound st \<and>
   added (SearchForFiles basePath dir st) = added st"
  "mWordsFound (read_entries basePath entries st) = mWordsFound st \<and>
   added (read_entries basePath entries st) = added st"
proof (induction basePath dir st and basePath entries st rule: SearchForFiles_read_entries.induct)
  case (1 basePath err st)
  show ?case by simp
next
  case (2 basePath entries st)
  then show ?case by simp
next
  case (3 basePath st)
  show ?case by simp
next
  case (4 basePath entry rest st)
  then show ?case
    by (auto simp: Let_def split: option.splits file_type.splits)
qed

lemma spec_submitted_sound:
  "path \<in> set (spec_submitted basePath dir)
     \<Longrightarrow> \<exists>p name. encountered basePath dir p (Entry name (Some S_IFREG)) \<and>
           suffix ''.txt'' name \<and> path = p @ ''/'' @ name"
  "path \<in> set (spec_entry basePath entry) \<Longrightarrow> entry \<in> set entries
     \<Longrightarrow> \<exists>p name. encountered basePath (Entries entries) p (Entry name (Some S_IFREG)) \<and>
           suffix ''.txt'' name \<and> path = p @ ''/'' @ name"
proof (induction basePath dir and basePath entry arbitrary: and entries
    rule: spec_submitted_spec_entry.induct)
  case (1 basePath err)
  then show ?case by simp
next
  case (2 basePath es)
  then obtain entry where "entry \<in> set es" "path \<in> set (spec_entry basePath entry)" by auto
  with 2(1) show ?case by blast
next
  case (3 basePath name kind)
  from 3(2) have named: "name \<noteq> ''.''" "name \<noteq> ''..''" by (auto split: if_splits)
  show ?case
  proof (cases kind)
    case None
    with 3(2) show ?thesis by (simp split: if_splits)
  next
    case (Some type)
    show ?thesis
    proof (cases type)
      case S_IFREG
      with 3(2) Some named have "suffix ''.txt'' name" "path = basePath @ ''/'' @ name"
        by (simp_all split: if_splits)
      moreover from 3(3) Some S_IFREG
      have "encountered basePath (Entries entries) basePath (Entry name (Some S_IFREG))"
        by (simp add: encountered.here)
      ultimately show ?thesis by blast
    next
      case (S_IFDIR dir)
      with 3(2) Some named have "path \<in> set (spec_submitted (basePath @ ''/'' @ name) dir)"
        by simp
      with 3(1) [OF _ Some S_IFDIR] named
      obtain p n where "encountered (basePath @ ''/'' @ name) dir p (Entry n (Some S_IFREG))"
        "suffix ''.txt'' n" "path = p @ ''/'' @ n" by auto
      moreover from 3(3) Some S_IFDIR have "Entry name (Some (S_IFDIR dir)) \<in> set entries" by simp
      ultimately show ?thesis using named by (blast intro: encountered.below)
    next
      case S_IFLNK
      with 3(2) Some show ?thesis by (simp split: if_splits)
    next
      case S_IFOTHER
      with 3(2) Some show ?thesis by (simp split: if_splits)
    qed
  qed
qed

lemma spec_submitted_complete:
  "encountered basePath dir p entry \<Longrightarrow> entry = Entry name (Some S_IFREG) \<Longrightarrow> suffix ''.txt'' name
     \<Longrightarrow> p @ ''/'' @ name \<in> set (spec_submitted basePath dir)"
proof (induction rule: encountered.induct)
  case (here entry entries basePath)
  from here(3) have "name \<noteq> ''.''" "name \<noteq> ''..''" by (auto simp: suffix_def)
  with here have "basePath @ ''/'' @ name \<in> set (spec_entry basePath entry)" by simp
  with here(1) show ?case by auto
next
  case (below n dir entries basePath path entry)
  then have "path @ ''/'' @ name \<in> set (spec_submitted (basePath @ ''/'' @ n) dir)" by simp
  with below(2,3) have "path @ ''/'' @ name \<in> set (spec_entry basePath (Entry n (Some (S_IFDIR dir))))"
    by simp
  with below(1) show ?case by (auto simp del: spec_entry.simps)
qed

text \<open>
  Claim C7. The walk submits exactly the files of the filtering rule, in its order: a path
  is submitted if and only if it is the path of an entry the walk comes across that is a
  regular file (by \<^verbatim>\<open>lstat\<close>, so not a symbolic link) and whose name ends in \<open>.txt\<close>.
  The entries \<open>.\<close> and \<open>..\<close>, entries whose \<^verbatim>\<open>lstat\<close> fails, symbolic links and other
  non-directories submit nothing; a directory is walked in place, and nothing is processed
  by the walk itself.
\<close>

theorem walk_submits_regular_txt:
  "mIOService (SearchForFiles basePath dir st) = mIOService st @ spec_submitted basePath dir \<and>
   (path \<in> set (spec_submitted basePath dir) \<longleftrightarrow>
      (\<exists>p name. encountered basePath dir p (Entry name (Some S_IFREG)) \<and>
                suffix ''.txt'' name \<and> path = p @ ''/'' @ name)) \<and>
   mWordsFound (SearchForFiles basePath dir st) = mWordsFound st \<and>
   added (SearchForFiles basePath dir st) = added st"
  using walk_posts(1) [of basePath dir st] walk_keeps(1) [of basePath dir st]
    spec_submitted_sound(1) [of path basePath dir]
    spec_submitted_complete [of basePath dir]
  by blast

lemma sample_submitted:
  "spec_submitted ''root'' sample_tree = [''root/a.txt'', ''root/sub/d.txt'']"
  by (simp add: sample_tree_def suffix_Cons)

theorem walk_submits_regular_txt_witness:
  "mIOService (SearchForFiles ''root'' sample_tree (FileIndexer_new length_hasher))
     = [''root/a.txt'', ''root/sub/d.txt''] \<and>
   encountered ''root'' sample_tree ''root/sub'' (Entry ''d.txt'' (Some S_IFREG)) \<and>
   suffix ''.txt'' ''d.txt'' \<and>
   ''root/sub/d.txt'' \<in> set (spec_submitted ''root'' sample_tree) \<and>
   encountered ''root'' sample_tree ''root/sub'' (Entry ''link.txt'' (Some S_IFLNK)) \<and>
   ''root/sub/link.txt'' \<notin> set (spec_submitted ''root'' sample_tree)"
proof -
  note t = walk_submits_regular_txt [of "''root''" sample_tree "FileIndexer_new length_hasher"
      "''root/sub/d.txt''"]
  have sub: "encountered (''root'' @ ''/'' @ ''sub'')
        (Entries [Entry ''c.log'' (Some S_IFREG), Entry ''link.txt'' (Some S_IFLNK),
                  Entry ''d.txt'' (Some S_IFREG)])
        (''root'' @ ''/'' @ ''sub'') entry"
    if "entry \<in> {Entry ''d.txt'' (Some S_IFREG), Entry ''link.txt'' (Some S_IFLNK)}" for entry
    using that by (intro encountered.here) auto
  have enc: "encountered ''root'' sample_tree (''root'' @ ''/'' @ ''sub'') entry"
    if "entry \<in> {Entry ''d.txt'' (Some S_IFREG), Entry ''link.txt'' (Some S_IFLNK)}" for entry
    unfolding sample_tree_def
    by (rule encountered.below [where name = "''sub''", OF _ _ _ sub [OF that]]) simp_all
  have path: "''root'' @ ''/'' @ ''sub'' = ''root/sub''" by simp
  have d: "encountered ''root'' sample_tree ''root/sub'' (Entry ''d.txt'' (Some S_IFREG))"
    and l: "encountered ''root'' sample_tree ''root/sub'' (Entry ''link.txt'' (Some S_IFLNK))"
    using enc unfolding path by simp_all
  have suf: "suffix ''.txt'' ''d.txt''" by (simp add: suffix_Cons)
  have "''root/sub/d.txt'' = ''root/sub'' @ ''/'' @ ''d.txt''" by simp
  with t d suf have mem: "''root/sub/d.txt'' \<in> set (spec_submitted ''root'' sample_tree)"
    by blast
  from t have "mIOService (SearchForFiles ''root'' sample_tree (FileIndexer_new length_hasher))
     = mIOService (FileIndexer_new length_hasher) @ spec_submitted ''root'' sample_tree"
    by (rule conjunct1)
  then have posted: "mIOService (SearchForFiles ''root'' sample_tree (FileIndexer_new length_hasher))
     = [''root/a.txt'', ''root/sub/d.txt'']"
    unfolding sample_submitted by (simp add: FileIndexer_new_def)
  have "''root/sub/link.txt'' \<notin> set (spec_submitted ''root'' sample_tree)"
    unfolding sample_submitted by simp
  with posted d suf mem l show ?thesis by blast
qed

end
